theory Spec2Isabelle
  imports Main
begin

section \<open>JavaScript maps\<close>

text \<open>
  A JavaScript \<^verbatim>\<open>Map\<close> keeps its entries in insertion order. It is modelled as an
  association list: \<^verbatim>\<open>set\<close> on a key that is present replaces the value where it
  stands, on a new key it appends; \<^verbatim>\<open>delete\<close> removes the entry.
\<close>

type_synonym ('k, 'v) js_map = "('k \<times> 'v) list"

definition Map_has :: "('k, 'v) js_map \<Rightarrow> 'k \<Rightarrow> bool" where
  "Map_has m k = (k \<in> set (map fst m))"

definition Map_keys :: "('k, 'v) js_map \<Rightarrow> 'k list" where
  "Map_keys m = map fst m"

definition Map_size :: "('k, 'v) js_map \<Rightarrow> nat" where
  "Map_size m = length m"

fun Map_set :: "'k \<Rightarrow> 'v \<Rightarrow> ('k, 'v) js_map \<Rightarrow> ('k, 'v) js_map" where
  "Map_set k v [] = [(k, v)]"
| "Map_set k v ((k', v') # m) =
     (if k' = k then (k, v) # m else (k', v') # Map_set k v m)"

definition Map_delete :: "'k \<Rightarrow> ('k, 'v) js_map \<Rightarrow> ('k, 'v) js_map" where
  "Map_delete k m = filter (\<lambda>e. fst e \<noteq> k) m"

section \<open>The task queue (task-queue.ts)\<close>

text \<open>
  \<^verbatim>\<open>QueuedTask.execute\<close> is an opaque asynchronous action: the queue calls it and
  attaches callbacks to the promise it returns. The action itself is a value of an
  arbitrary type \<open>'b\<close>; how its promise settles is decided by the environment and
  arrives as an event. As its type \<^verbatim>\<open>() => Promise<void>\<close> says, the call returns
  the promise: it does not throw, and it does not call the queue before it returns.
\<close>

record 'b QueuedTask =
  task_id :: string
  source :: string
  execute :: 'b

datatype outcome = Fulfilled | Rejected string

text \<open>The calls made to the queue's logger, in order.\<close>

datatype tq_log =
    Debug_skipping string string
  | Info_enqueued string string nat nat
  | Info_started string string
  | Error_failed string string
  | Info_completed string string nat nat

text \<open>
  The fields of the class, with the ceiling \<open>maxConcurrent\<close> an integer, and
  \<open>inflight\<close>: the tasks whose \<^verbatim>\<open>execute()\<close> has been
  called and whose \<^verbatim>\<open>catch\<close>/\<^verbatim>\<open>finally\<close> callbacks have not run yet. These
  pending callbacks live in the JavaScript runtime, not in the object.
\<close>

record 'b TaskQueue =
  queue :: "'b QueuedTask list"
  activeTasks :: "(string, 'b QueuedTask) js_map"
  maxConcurrent :: int
  logger :: "tq_log list"
  inflight :: "'b QueuedTask list"

definition TaskQueue_new :: "int \<Rightarrow> 'b TaskQueue" where
  "TaskQueue_new c =
     \<lparr>queue = [], activeTasks = [], maxConcurrent = c, logger = [], inflight = []\<rparr>"

definition pendingCount :: "'b TaskQueue \<Rightarrow> nat" where
  "pendingCount q = length (queue q)"

definition activeCount :: "'b TaskQueue \<Rightarrow> nat" where
  "activeCount q = Map_size (activeTasks q)"

definition activeTaskIds :: "'b TaskQueue \<Rightarrow> string list" where
  "activeTaskIds q = Map_keys (activeTasks q)"

definition isActive :: "'b TaskQueue \<Rightarrow> string \<Rightarrow> bool" where
  "isActive q taskId = Map_has (activeTasks q) taskId"

definition isPending :: "'b TaskQueue \<Rightarrow> string \<Rightarrow> bool" where
  "isPending q taskId = list_ex (\<lambda>t. task_id t = taskId) (queue q)"

definition getStatus :: "'b TaskQueue \<Rightarrow> nat \<times> nat \<times> string list" where
  "getStatus q = (pendingCount q, activeCount q, activeTaskIds q)"

text \<open>
  One pass of the loop body of \<^verbatim>\<open>drain\<close>: shift the head of the queue, put it into
  the active map, log, and call \<^verbatim>\<open>execute()\<close>, which leaves a promise in flight.
\<close>

definition start_head :: "'b TaskQueue \<Rightarrow> 'b TaskQueue" where
  "start_head q =
     (let task = hd (queue q) in
      q\<lparr>queue := tl (queue q),
        activeTasks := Map_set (task_id task) task (activeTasks q),
        logger := logger q @ [Info_started (task_id task) (source task)],
        inflight := inflight q @ [task]\<rparr>)"

function drain :: "'b TaskQueue \<Rightarrow> 'b TaskQueue" where
  "drain q =
     (if int (Map_size (activeTasks q)) < maxConcurrent q \<and> length (queue q) > 0
      then drain (start_head q)
      else q)"
  by pat_completeness auto
termination
  by (relation "measure (\<lambda>q. length (queue q))") (auto simp: start_head_def Let_def)

declare drain.simps [simp del]

definition enqueue :: "'b QueuedTask \<Rightarrow> 'b TaskQueue \<Rightarrow> bool \<times> 'b TaskQueue" where
  "enqueue task q =
     (if Map_has (activeTasks q) (task_id task)
         \<or> list_ex (\<lambda>t. task_id t = task_id task) (queue q)
      then (False, q\<lparr>logger := logger q @ [Debug_skipping (task_id task) (source task)]\<rparr>)
      else
        let q1 = q\<lparr>queue := queue q @ [task]\<rparr>;
            q2 = q1\<lparr>logger := logger q1 @
                   [Info_enqueued (task_id task) (source task) (pendingCount q1) (activeCount q1)]\<rparr>
        in (True, drain q2))"

text \<open>
  The promise of the in-flight task with the given id settles. The \<^verbatim>\<open>catch\<close>
  callback runs only on rejection and only logs; the \<^verbatim>\<open>finally\<close> callback deletes
  the id from the active map, logs and drains. A settle event for an id that is not in
  flight cannot happen and is the identity.
\<close>

definition on_catch :: "'b QueuedTask \<Rightarrow> outcome \<Rightarrow> 'b TaskQueue \<Rightarrow> 'b TaskQueue" where
  "on_catch task out q =
     (case out of
        Fulfilled \<Rightarrow> q
      | Rejected err \<Rightarrow> q\<lparr>logger := logger q @ [Error_failed (task_id task) err]\<rparr>)"

definition on_finally :: "'b QueuedTask \<Rightarrow> 'b TaskQueue \<Rightarrow> 'b TaskQueue" where
  "on_finally task q =
     (let q1 = q\<lparr>activeTasks := Map_delete (task_id task) (activeTasks q)\<rparr>;
          q2 = q1\<lparr>logger := logger q1 @
                 [Info_completed (task_id task) (source task) (pendingCount q1) (activeCount q1)]\<rparr>
      in drain q2)"

fun take_inflight :: "string \<Rightarrow> 'b QueuedTask list \<Rightarrow> ('b QueuedTask \<times> 'b QueuedTask list) option" where
  "take_inflight k [] = None"
| "take_inflight k (t # ts) =
     (if task_id t = k then Some (t, ts)
      else (case take_inflight k ts of
              None \<Rightarrow> None
            | Some (t', ts') \<Rightarrow> Some (t', t # ts')))"

definition settle :: "string \<Rightarrow> outcome \<Rightarrow> 'b TaskQueue \<Rightarrow> 'b TaskQueue" where
  "settle k out q =
     (case take_inflight k (inflight q) of
        None \<Rightarrow> q
      | Some (task, rest) \<Rightarrow> on_finally task (on_catch task out (q\<lparr>inflight := rest\<rparr>)))"

datatype 'b tq_event = Enqueue "'b QueuedTask" | Settle string outcome

fun tq_step :: "'b tq_event \<Rightarrow> 'b TaskQueue \<Rightarrow> 'b TaskQueue" where
  "tq_step (Enqueue task) q = snd (enqueue task q)"
| "tq_step (Settle k out) q = settle k out q"

definition tq_run :: "'b tq_event list \<Rightarrow> 'b TaskQueue \<Rightarrow> 'b TaskQueue" where
  "tq_run evs q = fold tq_step evs q"

text \<open>The ids the log reports as admitted, and as started, in order.\<close>

fun enqueued_ids :: "tq_log list \<Rightarrow> string list" where
  "enqueued_ids [] = []"
| "enqueued_ids (Info_enqueued i s p a # l) = i # enqueued_ids l"
| "enqueued_ids (e # l) = enqueued_ids l"

fun started_ids :: "tq_log list \<Rightarrow> string list" where
  "started_ids [] = []"
| "started_ids (Info_started i s # l) = i # started_ids l"
| "started_ids (e # l) = started_ids l"

text \<open>
  The invariant of the queue together with its pending callbacks: the active map holds
  exactly the tasks in flight, in the order they were started; no id occurs twice among the
  tasks in flight and the pending ones; the tasks in flight fit under the ceiling; and the
  ids logged as admitted are the ids logged as started followed by the pending ones.
\<close>

definition entries :: "'b QueuedTask list \<Rightarrow> (string, 'b QueuedTask) js_map" where
  "entries ts = map (\<lambda>t. (task_id t, t)) ts"

definition tq_inv :: "'b TaskQueue \<Rightarrow> bool" where
  "tq_inv q \<longleftrightarrow>
     activeTasks q = entries (inflight q) \<and>
     distinct (map task_id (inflight q @ queue q)) \<and>
     int (length (inflight q)) \<le> maxConcurrent q \<and>
     enqueued_ids (logger q) = started_ids (logger q) @ map task_id (queue q)"

text \<open>After a drain, either nothing is pending or every slot is taken.\<close>

definition saturated :: "'b TaskQueue \<Rightarrow> bool" where
  "saturated q \<longleftrightarrow> queue q = [] \<or> maxConcurrent q \<le> int (Map_size (activeTasks q))"

text \<open>Three tasks with different ids, for the concrete runs below.\<close>

definition taskA :: "unit QueuedTask" where
  "taskA = \<lparr>task_id = ''a'', source = ''github'', execute = ()\<rparr>"

definition taskB :: "unit QueuedTask" where
  "taskB = \<lparr>task_id = ''b'', source = ''heartbeat'', execute = ()\<rparr>"

definition taskC :: "unit QueuedTask" where
  "taskC = \<lparr>task_id = ''c'', source = ''scheduler'', execute = ()\<rparr>"

section \<open>JSON values\<close>

text \<open>
  What \<^verbatim>\<open>JSON.parse\<close> returns. Numbers are modelled as integers; an object is the list
  of its own properties, each key once. \<open>truthy\<close> is JavaScript's conversion to boolean
  (\<^verbatim>\<open>!v\<close> is its negation); \<^verbatim>\<open>undefined\<close>, the value of a missing property, is
  \<open>None\<close> and is falsy.
\<close>

datatype json =
    JNull
  | JBool bool
  | JNum int
  | JStr string
  | JArr "json list"
  | JObj "(string \<times> json) list"

fun truthy :: "json \<Rightarrow> bool" where
  "truthy JNull = False"
| "truthy (JBool b) = b"
| "truthy (JNum n) = (n \<noteq> 0)"
| "truthy (JStr s) = (s \<noteq> [])"
| "truthy (JArr xs) = True"
| "truthy (JObj fs) = True"

fun truthy_opt :: "json option \<Rightarrow> bool" where
  "truthy_opt None = False"
| "truthy_opt (Some v) = truthy v"

datatype js_error = TypeError | RangeError

section \<open>Sweeping a cache of timestamps\<close>

text \<open>
  Both caches are swept by the same loop,
  \<^verbatim>\<open>for (const [key, v] of map) if (now - timestamp(v) > ttl) { map.delete(key); cleaned++ }\<close>,
  over different value types. The loop visits the entries of the map in order; deleting the
  entry being visited does not disturb the iteration.
\<close>

fun sweep_loop :: "('v \<Rightarrow> int) \<Rightarrow> int \<Rightarrow> int \<Rightarrow> ('k \<times> 'v) list
    \<Rightarrow> ('k, 'v) js_map \<times> nat \<Rightarrow> ('k, 'v) js_map \<times> nat" where
  "sweep_loop ts now ttl [] (m, cleaned) = (m, cleaned)"
| "sweep_loop ts now ttl ((key, v) # es) (m, cleaned) =
     (if now - ts v > ttl
      then sweep_loop ts now ttl es (Map_delete key m, cleaned + 1)
      else sweep_loop ts now ttl es (m, cleaned))"

section \<open>The heartbeat's cache of processed items (heartbeat.ts)\<close>

record TrackedItem =
  timestamp :: int

datatype hb_log = Debug_cleaned_items nat

record Heartbeat =
  processedItems :: "(string, TrackedItem) js_map"
  logger_hb :: "hb_log list"

definition itemTtlMs :: int where
  "itemTtlMs = 60 * 60 * 1000"

definition Heartbeat_new :: Heartbeat where
  "Heartbeat_new = \<lparr>processedItems = [], logger_hb = []\<rparr>"

definition isProcessed :: "Heartbeat \<Rightarrow> string \<Rightarrow> bool" where
  "isProcessed h key = Map_has (processedItems h) key"

text \<open>\<open>now\<close> is the value of \<^verbatim>\<open>Date.now()\<close> at the call, in milliseconds.\<close>

definition markProcessed :: "int \<Rightarrow> string \<Rightarrow> Heartbeat \<Rightarrow> Heartbeat" where
  "markProcessed now key h =
     h\<lparr>processedItems := Map_set key \<lparr>timestamp = now\<rparr> (processedItems h)\<rparr>"

definition cleanupProcessedItems :: "int \<Rightarrow> Heartbeat \<Rightarrow> Heartbeat" where
  "cleanupProcessedItems now h =
     (case sweep_loop timestamp now itemTtlMs (processedItems h) (processedItems h, 0) of
        (m, cleaned) \<Rightarrow>
          h\<lparr>processedItems := m,
            logger_hb := (if cleaned > 0 then logger_hb h @ [Debug_cleaned_items cleaned]
                          else logger_hb h)\<rparr>)"

text \<open>
  The cache changes by marks (from the checks of a tick) and by sweeps (at the start of
  every tick); each event carries the time at which it happens. \<open>hb_at t\<close> is the cache
  at time \<open>t\<close> under a schedule of events: the events scheduled up to \<open>t\<close> have run.
\<close>

datatype hb_event = Mark string | Sweep

fun hb_step :: "int \<times> hb_event \<Rightarrow> Heartbeat \<Rightarrow> Heartbeat" where
  "hb_step (now, Mark key) h = markProcessed now key h"
| "hb_step (now, Sweep) h = cleanupProcessedItems now h"

definition hb_run :: "(int \<times> hb_event) list \<Rightarrow> Heartbeat \<Rightarrow> Heartbeat" where
  "hb_run evs h = fold hb_step evs h"

definition hb_at :: "int \<Rightarrow> (int \<times> hb_event) list \<Rightarrow> Heartbeat \<Rightarrow> Heartbeat" where
  "hb_at t evs h = hb_run (filter (\<lambda>e. fst e \<le> t) evs) h"

text \<open>
  The representation of a map has each key once. While every entry of a key is at least
  as young as \<open>t0\<close> the key is \<open>fresh_since t0\<close>; when every entry of the key carries
  the time \<open>t0\<close> it is \<open>stamped t0\<close>.
\<close>

definition hb_wf :: "Heartbeat \<Rightarrow> bool" where
  "hb_wf h \<longleftrightarrow> distinct (map fst (processedItems h))"

definition fresh_since :: "int \<Rightarrow> string \<Rightarrow> Heartbeat \<Rightarrow> bool" where
  "fresh_since t0 x h \<longleftrightarrow>
     isProcessed h x \<and> (\<forall>item. (x, item) \<in> set (processedItems h) \<longrightarrow> t0 \<le> timestamp item)"

definition stamped :: "int \<Rightarrow> string \<Rightarrow> Heartbeat \<Rightarrow> bool" where
  "stamped t0 x h \<longleftrightarrow> (\<forall>item. (x, item) \<in> set (processedItems h) \<longrightarrow> timestamp item = t0)"

section \<open>The webhook server's delivery cache (webhook-server.ts)\<close>

text \<open>
  A response is the status given to \<^verbatim>\<open>writeHead\<close> and the object written by
  \<^verbatim>\<open>end\<close>, which is either \<^verbatim>\<open>{error: ...}\<close> or \<^verbatim>\<open>{status: ...}\<close>.
\<close>

datatype response_body = Error_body string | Status_body string

record response =
  status :: nat
  body :: response_body

record request =
  x_hub_signature_256 :: "string option"
  x_github_delivery :: "string option"
  rawBody :: string

datatype ws_log =
    Warn_missing_signature
  | Warn_invalid_signature
  | Debug_duplicate string
  | Debug_cleaned_deliveries nat

text \<open>
  \<open>githubHandler\<close> says whether a handler has been registered; \<open>dispatched\<close> lists the
  calls made to it, each with the parsed payload and the request whose headers it received.
\<close>

record WebhookServer =
  recentDeliveries :: "(string, int) js_map"
  githubHandler :: bool
  dispatched :: "(json \<times> request) list"
  logger_ws :: "ws_log list"

definition deduplicationTtlMs :: int where
  "deduplicationTtlMs = 10 * 60 * 1000"

definition WebhookServer_new :: WebhookServer where
  "WebhookServer_new =
     \<lparr>recentDeliveries = [], githubHandler = False, dispatched = [], logger_ws = []\<rparr>"

definition setGithubHandler :: "WebhookServer \<Rightarrow> WebhookServer" where
  "setGithubHandler s = s\<lparr>githubHandler := True\<rparr>"

text \<open>
  The signature check at the head of \<^verbatim>\<open>handleGithubWebhook\<close>. \<open>secret\<close> is
  \<^verbatim>\<open>config.github.webhookSecret\<close> and \<open>hmac_hex secret body\<close> the hex digest of the
  HMAC-SHA256 of the body. \<^verbatim>\<open>crypto.timingSafeEqual\<close> throws when its arguments differ
  in length.
\<close>

datatype signature_check = Sig_ok | Sig_missing | Sig_invalid | Sig_throws

definition check_signature :: "string \<Rightarrow> (string \<Rightarrow> string \<Rightarrow> string) \<Rightarrow> request \<Rightarrow> signature_check" where
  "check_signature secret hmac_hex req =
     (if secret \<noteq> [] then
        (case x_hub_signature_256 req of
           None \<Rightarrow> Sig_missing
         | Some signature \<Rightarrow>
             if signature = [] then Sig_missing
             else
               let expected = ''sha256='' @ hmac_hex secret (rawBody req) in
               if length signature \<noteq> length expected then Sig_throws
               else if signature \<noteq> expected then Sig_invalid
               else Sig_ok)
      else Sig_ok)"

text \<open>
  The part of \<^verbatim>\<open>handleGithubWebhook\<close> after the deduplication: parse, answer, dispatch.
  \<open>JSON_parse\<close> is \<^verbatim>\<open>JSON.parse\<close>, with \<open>None\<close> when it throws.
\<close>

definition parse_and_dispatch :: "(string \<Rightarrow> json option) \<Rightarrow> request \<Rightarrow> WebhookServer
    \<Rightarrow> response \<times> WebhookServer" where
  "parse_and_dispatch JSON_parse req s =
     (case JSON_parse (rawBody req) of
        None \<Rightarrow> (\<lparr>status = 400, body = Error_body ''Invalid JSON''\<rparr>, s)
      | Some payload \<Rightarrow>
          (\<lparr>status = 202, body = Status_body ''accepted''\<rparr>,
           if githubHandler s then s\<lparr>dispatched := dispatched s @ [(payload, req)]\<rparr> else s))"

definition handleGithubWebhook :: "string \<Rightarrow> (string \<Rightarrow> string \<Rightarrow> string) \<Rightarrow> (string \<Rightarrow> json option)
    \<Rightarrow> int \<Rightarrow> request \<Rightarrow> WebhookServer \<Rightarrow> js_error + response \<times> WebhookServer" where
  "handleGithubWebhook secret hmac_hex JSON_parse now req s =
     (case check_signature secret hmac_hex req of
        Sig_missing \<Rightarrow>
          Inr (\<lparr>status = 401, body = Error_body ''Missing signature''\<rparr>,
               s\<lparr>logger_ws := logger_ws s @ [Warn_missing_signature]\<rparr>)
      | Sig_throws \<Rightarrow> Inl RangeError
      | Sig_invalid \<Rightarrow>
          Inr (\<lparr>status = 401, body = Error_body ''Invalid signature''\<rparr>,
               s\<lparr>logger_ws := logger_ws s @ [Warn_invalid_signature]\<rparr>)
      | Sig_ok \<Rightarrow>
          (case x_github_delivery req of
             None \<Rightarrow> Inr (parse_and_dispatch JSON_parse req s)
           | Some deliveryId \<Rightarrow>
               if deliveryId = [] then Inr (parse_and_dispatch JSON_parse req s)
               else if Map_has (recentDeliveries s) deliveryId then
                 Inr (\<lparr>status = 200, body = Status_body ''duplicate''\<rparr>,
                      s\<lparr>logger_ws := logger_ws s @ [Debug_duplicate deliveryId]\<rparr>)
               else
                 Inr (parse_and_dispatch JSON_parse req
                        (s\<lparr>recentDeliveries := Map_set deliveryId now (recentDeliveries s)\<rparr>))))"

definition cleanupDeliveries :: "int \<Rightarrow> WebhookServer \<Rightarrow> WebhookServer" where
  "cleanupDeliveries now s =
     (case sweep_loop (\<lambda>timestamp. timestamp) now deduplicationTtlMs
             (recentDeliveries s) (recentDeliveries s, 0) of
        (m, cleaned) \<Rightarrow>
          s\<lparr>recentDeliveries := m,
            logger_ws := (if cleaned > 0 then logger_ws s @ [Debug_cleaned_deliveries cleaned]
                          else logger_ws s)\<rparr>)"

text \<open>
  The server handles GitHub requests and sweeps its cache on a timer. A request on which
  the signature comparison throws ends the run.
\<close>

datatype ws_event = Github_request request | Cleanup_deliveries

fun ws_step :: "string \<Rightarrow> (string \<Rightarrow> string \<Rightarrow> string) \<Rightarrow> (string \<Rightarrow> json option)
    \<Rightarrow> int \<times> ws_event \<Rightarrow> WebhookServer \<Rightarrow> js_error + WebhookServer" where
  "ws_step secret hmac_hex JSON_parse (now, Github_request req) s =
     (case handleGithubWebhook secret hmac_hex JSON_parse now req s of
        Inl e \<Rightarrow> Inl e
      | Inr (resp, s') \<Rightarrow> Inr s')"
| "ws_step secret hmac_hex JSON_parse (now, Cleanup_deliveries) s = Inr (cleanupDeliveries now s)"

fun ws_run :: "string \<Rightarrow> (string \<Rightarrow> string \<Rightarrow> string) \<Rightarrow> (string \<Rightarrow> json option)
    \<Rightarrow> (int \<times> ws_event) list \<Rightarrow> WebhookServer \<Rightarrow> js_error + WebhookServer" where
  "ws_run secret hmac_hex JSON_parse [] s = Inr s"
| "ws_run secret hmac_hex JSON_parse (e # evs) s =
     (case ws_step secret hmac_hex JSON_parse e s of
        Inl err \<Rightarrow> Inl err
      | Inr s' \<Rightarrow> ws_run secret hmac_hex JSON_parse evs s')"

text \<open>A parser for the concrete runs below: it accepts the empty object only.\<close>

definition parse_empty_object :: "string \<Rightarrow> json option" where
  "parse_empty_object s = (if s = ''{}'' then Some (JObj []) else None)"

definition delivery1 :: request where
  "delivery1 = \<lparr>x_hub_signature_256 = None, x_github_delivery = Some ''d1'', rawBody = ''{oops''\<rparr>"

definition delivery1_retry :: request where
  "delivery1_retry = \<lparr>x_hub_signature_256 = None, x_github_delivery = Some ''d1'', rawBody = ''{}''\<rparr>"

definition delivery2 :: request where
  "delivery2 = \<lparr>x_hub_signature_256 = None, x_github_delivery = Some ''d2'', rawBody = ''{}''\<rparr>"

text \<open>
  \<open>recorded d t0\<close>: the delivery id is in the cache, and only with the time \<open>t0\<close>.
  \<open>dispatched_of d\<close>: the calls to the handler made for requests with delivery id \<open>d\<close>.
\<close>

definition recorded :: "string \<Rightarrow> int \<Rightarrow> WebhookServer \<Rightarrow> bool" where
  "recorded d t0 s \<longleftrightarrow>
     Map_has (recentDeliveries s) d \<and> (\<forall>ts. (d, ts) \<in> set (recentDeliveries s) \<longrightarrow> ts = t0)"

definition dispatched_of :: "string \<Rightarrow> WebhookServer \<Rightarrow> (json \<times> request) list" where
  "dispatched_of d s = filter (\<lambda>c. x_github_delivery (snd c) = Some d) (dispatched s)"

section \<open>The scheduler (scheduler.ts)\<close>

subsection \<open>Strings made from values\<close>

text \<open>
  The decimal digits of a natural number, and JavaScript's conversion of a number to a
  string, for integers (below \<open>10^21\<close> in magnitude, where JavaScript switches to
  exponent notation).
\<close>

definition digit_char :: "nat \<Rightarrow> char" where
  "digit_char n = ''0123456789'' ! n"

function digits :: "nat \<Rightarrow> string" where
  "digits n = (if n < 10 then [digit_char n] else digits (n div 10) @ [digit_char (n mod 10)])"
  by pat_completeness auto
termination
  by (relation "measure (\<lambda>n. n)") auto

declare digits.simps [simp del]

definition number_toString :: "int \<Rightarrow> string" where
  "number_toString i = (if i < 0 then CHR ''-'' # digits (nat (- i)) else digits (nat i))"

fun join_comma :: "string list \<Rightarrow> string" where
  "join_comma [] = []"
| "join_comma [s] = s"
| "join_comma (s # t # ss) = s @ '','' @ join_comma (t # ss)"

text \<open>
  The conversion a template literal applies to a value. An array is the join of its
  elements with commas, \<^verbatim>\<open>null\<close> elements giving the empty string.
\<close>

fun toString :: "json \<Rightarrow> string" where
  "toString JNull = ''null''"
| "toString (JBool b) = (if b then ''true'' else ''false'')"
| "toString (JNum n) = number_toString n"
| "toString (JStr s) = s"
| "toString (JArr xs) = join_comma (map (\<lambda>x. if x = JNull then [] else toString x) xs)"
| "toString (JObj fs) = ''[object Object]''"

subsection \<open>Job definitions and their validation\<close>

text \<open>
  The interface declares the fields as strings, but \<^verbatim>\<open>loadJobs\<close> copies them from the
  parsed file unchecked, so at run time they hold whatever JSON value the file had; a
  field the entry did not have is \<^verbatim>\<open>undefined\<close>, here \<open>None\<close>.
\<close>

record JobDefinition =
  name :: json
  schedule :: json
  prompt :: json
  slackChannel :: "json option"
  workingDirectory :: "json option"

text \<open>
  Reading a property of an entry that is not \<^verbatim>\<open>null\<close>: an object gives the value it
  has for the key, every other value gives \<^verbatim>\<open>undefined\<close> (for the five keys used
  here). On \<^verbatim>\<open>null\<close> the read throws a \<^verbatim>\<open>TypeError\<close>, which \<open>check_entry\<close>
  decides before it reads.
\<close>

fun property :: "json \<Rightarrow> string \<Rightarrow> json option" where
  "property (JObj fs) k = map_of fs k"
| "property v k = None"

text \<open>
  What the body of the loop in \<^verbatim>\<open>loadJobs\<close> decides for one entry; \<open>validate\<close> is
  \<^verbatim>\<open>cron.validate\<close> of node-cron.
\<close>

datatype entry_verdict =
    Entry_throws
  | Entry_invalid
  | Entry_bad_cron json json
  | Entry_ok JobDefinition

definition check_entry :: "(json \<Rightarrow> bool) \<Rightarrow> json \<Rightarrow> entry_verdict" where
  "check_entry validate job =
     (if job = JNull then Entry_throws
      else
        (case (property job ''name'', property job ''schedule'', property job ''prompt'') of
           (Some n, Some sc, Some p) \<Rightarrow>
             if \<not> truthy n \<or> \<not> truthy sc \<or> \<not> truthy p then Entry_invalid
             else if \<not> validate sc then Entry_bad_cron n sc
             else Entry_ok \<lparr>name = n, schedule = sc, prompt = p,
                             slackChannel = property job ''slackChannel'',
                             workingDirectory = property job ''workingDirectory''\<rparr>
         | _ \<Rightarrow> Entry_invalid))"

subsection \<open>The scheduler and node-cron's tasks\<close>

text \<open>
  The closure given to the queue as \<^verbatim>\<open>execute\<close> by \<^verbatim>\<open>enqueueJob\<close> holds the
  channel and the job.
\<close>

datatype job_body = Job_body json JobDefinition

text \<open>
  A task of node-cron, as the repository's declaration of the module has it:
  \<^verbatim>\<open>schedule\<close> creates a task that runs, \<^verbatim>\<open>stop\<close> stops it, and \<^verbatim>\<open>start\<close> is never
  called. The callback of a task is \<^verbatim>\<open>enqueueJob(job)\<close> for the job it was created for.
\<close>

record ScheduledTask =
  expression :: json
  callback_job :: JobDefinition
  running :: bool

datatype sched_log =
    Info_no_jobs_file
  | Warn_not_array
  | Warn_skipping_invalid json
  | Warn_invalid_cron json json
  | Info_loaded nat "json list"
  | Error_failed_load
  | Info_changed_reloading
  | Info_cron_triggered json
  | Warn_no_channel json

text \<open>
  The fields of the class, with \<open>cronTasks\<close> holding the tasks as indices into
  \<open>cron_registry\<close>, the list of all tasks node-cron has created, in creation order;
  \<open>watching\<close> says that the file watcher is installed.
\<close>

record Scheduler =
  jobs :: "JobDefinition list"
  cronTasks :: "nat list"
  logger_s :: "sched_log list"
  taskQueue :: "job_body TaskQueue"
  cron_registry :: "ScheduledTask list"
  watching :: bool

definition Scheduler_new :: "job_body TaskQueue \<Rightarrow> Scheduler" where
  "Scheduler_new q =
     \<lparr>jobs = [], cronTasks = [], logger_s = [], taskQueue = q, cron_registry = [],
      watching = False\<rparr>"

text \<open>
  What reading the file gives: it does not exist; \<^verbatim>\<open>readFileSync\<close> throws;
  \<^verbatim>\<open>JSON.parse\<close> throws; or the parsed value.
\<close>

datatype jobs_file = Missing | Read_throws | Parse_throws | Parsed json

definition cron_schedule :: "json \<Rightarrow> JobDefinition \<Rightarrow> ScheduledTask" where
  "cron_schedule expr job = \<lparr>expression = expr, callback_job = job, running = True\<rparr>"

fun schedule_loop :: "JobDefinition list \<Rightarrow> Scheduler \<Rightarrow> Scheduler" where
  "schedule_loop [] s = s"
| "schedule_loop (job # rest) s =
     schedule_loop rest
       (s\<lparr>cron_registry := cron_registry s @ [cron_schedule (schedule job) job],
          cronTasks := cronTasks s @ [length (cron_registry s)]\<rparr>)"

definition scheduleCronTasks :: "Scheduler \<Rightarrow> Scheduler" where
  "scheduleCronTasks s = schedule_loop (jobs s) s"

text \<open>\<^verbatim>\<open>task.stop()\<close> on the task with index \<open>h\<close>.\<close>

definition stop_task :: "nat \<Rightarrow> ScheduledTask list \<Rightarrow> ScheduledTask list" where
  "stop_task h reg = (if h < length reg then reg[h := (reg ! h)\<lparr>running := False\<rparr>] else reg)"

fun stop_loop :: "nat list \<Rightarrow> ScheduledTask list \<Rightarrow> ScheduledTask list" where
  "stop_loop [] reg = reg"
| "stop_loop (h # hs) reg = stop_loop hs (stop_task h reg)"

definition stopCronTasks :: "Scheduler \<Rightarrow> Scheduler" where
  "stopCronTasks s = s\<lparr>cron_registry := stop_loop (cronTasks s) (cron_registry s), cronTasks := []\<rparr>"

text \<open>
  The loop of \<^verbatim>\<open>loadJobs\<close> over the entries. When an entry throws, the loop ends there
  with the state it has reached.
\<close>

definition load_entry :: "(json \<Rightarrow> bool) \<Rightarrow> json \<Rightarrow> Scheduler \<Rightarrow> js_error \<times> Scheduler + Scheduler" where
  "load_entry validate job s =
     (case check_entry validate job of
        Entry_throws \<Rightarrow> Inl (TypeError, s)
      | Entry_invalid \<Rightarrow> Inr (s\<lparr>logger_s := logger_s s @ [Warn_skipping_invalid job]\<rparr>)
      | Entry_bad_cron n sc \<Rightarrow> Inr (s\<lparr>logger_s := logger_s s @ [Warn_invalid_cron n sc]\<rparr>)
      | Entry_ok j \<Rightarrow> Inr (s\<lparr>jobs := jobs s @ [j]\<rparr>))"

fun load_entries :: "(json \<Rightarrow> bool) \<Rightarrow> json list \<Rightarrow> Scheduler \<Rightarrow> js_error \<times> Scheduler + Scheduler" where
  "load_entries validate [] s = Inr s"
| "load_entries validate (job # rest) s =
     (case load_entry validate job s of
        Inl e \<Rightarrow> Inl e
      | Inr s' \<Rightarrow> load_entries validate rest s')"

definition loadJobs :: "(json \<Rightarrow> bool) \<Rightarrow> jobs_file \<Rightarrow> Scheduler \<Rightarrow> Scheduler" where
  "loadJobs validate file s =
     (case file of
        Missing \<Rightarrow> s\<lparr>logger_s := logger_s s @ [Info_no_jobs_file]\<rparr>
      | Read_throws \<Rightarrow> s\<lparr>logger_s := logger_s s @ [Error_failed_load]\<rparr>
      | Parse_throws \<Rightarrow> s\<lparr>logger_s := logger_s s @ [Error_failed_load]\<rparr>
      | Parsed parsed \<Rightarrow>
          (case parsed of
             JArr parsed_entries \<Rightarrow>
               (case load_entries validate parsed_entries (s\<lparr>jobs := []\<rparr>) of
                  Inl (e, s') \<Rightarrow> s'\<lparr>logger_s := logger_s s' @ [Error_failed_load]\<rparr>
                | Inr s' \<Rightarrow>
                    scheduleCronTasks
                      (s'\<lparr>logger_s := logger_s s' @
                            [Info_loaded (length (jobs s')) (map name (jobs s'))]\<rparr>))
           | _ \<Rightarrow> s\<lparr>logger_s := logger_s s @ [Warn_not_array]\<rparr>))"

text \<open>\<^verbatim>\<open>start\<close> loads and installs the watcher; \<open>on_change\<close> is the watcher's callback.\<close>

definition start :: "(json \<Rightarrow> bool) \<Rightarrow> jobs_file \<Rightarrow> Scheduler \<Rightarrow> Scheduler" where
  "start validate file s = (loadJobs validate file s)\<lparr>watching := True\<rparr>"

definition on_change :: "(json \<Rightarrow> bool) \<Rightarrow> jobs_file \<Rightarrow> Scheduler \<Rightarrow> Scheduler" where
  "on_change validate file s =
     loadJobs validate file
       (stopCronTasks (s\<lparr>logger_s := logger_s s @ [Info_changed_reloading]\<rparr>))"

definition stop :: "Scheduler \<Rightarrow> Scheduler" where
  "stop s = (stopCronTasks s)\<lparr>watching := False\<rparr>"

text \<open>
  \<^verbatim>\<open>enqueueJob\<close>: \<open>notifySlackChannel\<close> is \<^verbatim>\<open>config.github.notifySlackChannel\<close>, a
  string that is empty when not configured, and \<open>now\<close> is \<^verbatim>\<open>Date.now()\<close>.
\<close>

definition taskId :: "JobDefinition \<Rightarrow> int \<Rightarrow> string" where
  "taskId job now = ''scheduler-'' @ toString (name job) @ ''-'' @ number_toString now"

definition channel_of :: "string \<Rightarrow> JobDefinition \<Rightarrow> json" where
  "channel_of notifySlackChannel job =
     (if truthy_opt (slackChannel job) then (case slackChannel job of Some c \<Rightarrow> c | None \<Rightarrow> JStr [])
      else if notifySlackChannel \<noteq> [] then JStr notifySlackChannel
      else JStr [])"

definition enqueueJob :: "string \<Rightarrow> int \<Rightarrow> JobDefinition \<Rightarrow> Scheduler \<Rightarrow> Scheduler" where
  "enqueueJob notifySlackChannel now job s =
     (let channel = channel_of notifySlackChannel job in
      if \<not> truthy channel
      then s\<lparr>logger_s := logger_s s @ [Warn_no_channel (name job)]\<rparr>
      else s\<lparr>taskQueue :=
               snd (enqueue \<lparr>task_id = taskId job now, source = ''scheduler'',
                              execute = Job_body channel job\<rparr> (taskQueue s))\<rparr>)"

text \<open>
  The events of the scheduler: the two public methods, a change of the file seen by the
  watcher, and node-cron firing a task at some time. A task that is stopped does not fire.
\<close>

datatype sched_event =
    Start jobs_file
  | Stop
  | File_changed jobs_file
  | Cron_fire nat int

fun sched_step :: "(json \<Rightarrow> bool) \<Rightarrow> string \<Rightarrow> sched_event \<Rightarrow> Scheduler \<Rightarrow> Scheduler" where
  "sched_step validate ch (Start file) s = start validate file s"
| "sched_step validate ch Stop s = stop s"
| "sched_step validate ch (File_changed file) s =
     (if watching s then on_change validate file s else s)"
| "sched_step validate ch (Cron_fire h now) s =
     (if h < length (cron_registry s) \<and> running (cron_registry s ! h)
      then
        let job = callback_job (cron_registry s ! h) in
        enqueueJob ch now job (s\<lparr>logger_s := logger_s s @ [Info_cron_triggered (name job)]\<rparr>)
      else s)"

definition sched_run :: "(json \<Rightarrow> bool) \<Rightarrow> string \<Rightarrow> sched_event list \<Rightarrow> Scheduler \<Rightarrow> Scheduler" where
  "sched_run validate ch evs s = fold (sched_step validate ch) evs s"

text \<open>
  \<open>extends reg reg'\<close>: the later list of tasks \<open>reg'\<close> has every task of \<open>reg\<close>, and
  none of them runs that did not run before. \<open>sched_inv\<close>: every running task is one the
  scheduler holds in \<open>cronTasks\<close>, and every task it holds exists. \<open>active_jobs\<close>
  lists the jobs whose tasks run; \<open>jobs_of\<close> collects the jobs of the entries that
  passed validation.
\<close>

definition extends :: "ScheduledTask list \<Rightarrow> ScheduledTask list \<Rightarrow> bool" where
  "extends reg reg' \<longleftrightarrow>
     length reg \<le> length reg' \<and> (\<forall>h < length reg. running (reg' ! h) \<longrightarrow> running (reg ! h))"

definition sched_inv :: "Scheduler \<Rightarrow> bool" where
  "sched_inv s \<longleftrightarrow>
     (\<forall>h < length (cron_registry s). running (cron_registry s ! h) \<longrightarrow> h \<in> set (cronTasks s))
     \<and> (\<forall>h \<in> set (cronTasks s). h < length (cron_registry s))"

definition active_jobs :: "Scheduler \<Rightarrow> JobDefinition list" where
  "active_jobs s = map callback_job (filter running (cron_registry s))"

fun jobs_of :: "entry_verdict list \<Rightarrow> JobDefinition list" where
  "jobs_of [] = []"
| "jobs_of (Entry_ok j # vs) = j # jobs_of vs"
| "jobs_of (v # vs) = jobs_of vs"

text \<open>
  The jobs for which a call of \<^verbatim>\<open>loadJobs\<close> creates tasks: those of the entries that
  pass, when the file holds an array and no entry throws; none otherwise.
\<close>

definition scheduled_by :: "(json \<Rightarrow> bool) \<Rightarrow> jobs_file \<Rightarrow> JobDefinition list" where
  "scheduled_by validate file =
     (case file of
        Parsed (JArr es) \<Rightarrow>
          if JNull \<in> set es then [] else jobs_of (map (check_entry validate) es)
      | _ \<Rightarrow> [])"

text \<open>The warning the loop logs for an entry it skips.\<close>

definition entry_log :: "(json \<Rightarrow> bool) \<Rightarrow> json \<Rightarrow> sched_log list" where
  "entry_log validate job =
     (case check_entry validate job of
        Entry_invalid \<Rightarrow> [Warn_skipping_invalid job]
      | Entry_bad_cron n sc \<Rightarrow> [Warn_invalid_cron n sc]
      | _ \<Rightarrow> [])"

definition stopped :: "ScheduledTask \<Rightarrow> ScheduledTask" where
  "stopped t = t\<lparr>running := False\<rparr>"

text \<open>Concrete entries and a stand-in for \<^verbatim>\<open>cron.validate\<close>, for the runs below.\<close>

definition five_fields :: "json \<Rightarrow> bool" where
  "five_fields v = (case v of JStr s \<Rightarrow> length (filter (\<lambda>c. c = CHR '' '') s) = 4 | _ \<Rightarrow> False)"

definition entry_nightly :: json where
  "entry_nightly = JObj [(''name'', JStr ''nightly''), (''schedule'', JStr ''0 3 * * *''),
                         (''prompt'', JStr ''run the nightly report''),
                         (''slackChannel'', JStr ''C123'')]"

definition entry_hourly :: json where
  "entry_hourly = JObj [(''name'', JStr ''hourly''), (''schedule'', JStr ''0 * * * *''),
                        (''prompt'', JStr ''check the inbox'')]"

definition entry_bad_cron :: json where
  "entry_bad_cron = JObj [(''name'', JStr ''broken''), (''schedule'', JStr ''every day''),
                          (''prompt'', JStr ''never runs'')]"

definition job_nightly :: JobDefinition where
  "job_nightly = \<lparr>name = JStr ''nightly'', schedule = JStr ''0 3 * * *'',
                   prompt = JStr ''run the nightly report'',
                   slackChannel = Some (JStr ''C123''), workingDirectory = None\<rparr>"

definition job_hourly :: JobDefinition where
  "job_hourly = \<lparr>name = JStr ''hourly'', schedule = JStr ''0 * * * *'',
                  prompt = JStr ''check the inbox'',
                  slackChannel = None, workingDirectory = None\<rparr>"

section \<open>Properties of the task queue\<close>

lemma Map_has_set: "Map_has (Map_set k v m) k' = (k' = k \<or> Map_has m k')"
  unfolding Map_has_def by (induction m) force+

lemma Map_set_fresh: "\<not> Map_has m k \<Longrightarrow> Map_set k v m = m @ [(k, v)]"
  by (induction m) (auto simp: Map_has_def)

lemma enqueued_ids_append: "enqueued_ids (l1 @ l2) = enqueued_ids l1 @ enqueued_ids l2"
  by (induction l1 rule: enqueued_ids.induct) auto

lemma started_ids_append: "started_ids (l1 @ l2) = started_ids l1 @ started_ids l2"
  by (induction l1 rule: started_ids.induct) auto

lemma Map_keys_entries: "Map_keys (entries xs) = map task_id xs"
  by (simp add: Map_keys_def entries_def comp_def)

lemma Map_has_entries: "Map_has (entries xs) k = (k \<in> task_id ` set xs)"
  by (auto simp: Map_has_def entries_def comp_def)

lemma Map_size_entries: "Map_size (entries xs) = length xs"
  by (simp add: Map_size_def entries_def)

lemma Map_set_entries:
  "task_id t \<notin> task_id ` set xs \<Longrightarrow> Map_set (task_id t) t (entries xs) = entries (xs @ [t])"
  by (simp add: Map_set_fresh Map_has_entries) (simp add: entries_def)

lemma Map_delete_entries_notin:
  "k \<notin> task_id ` set xs \<Longrightarrow> Map_delete k (entries xs) = entries xs"
  by (induction xs) (auto simp: Map_delete_def entries_def)

lemma Map_delete_entries:
  "k \<notin> task_id ` set xs \<Longrightarrow> k \<notin> task_id ` set ys \<Longrightarrow> task_id t = k \<Longrightarrow>
     Map_delete k (entries (xs @ t # ys)) = entries (xs @ ys)"
  using Map_delete_entries_notin[of k xs] Map_delete_entries_notin[of k ys]
  by (simp add: Map_delete_def entries_def)

lemma start_head_inv:
  assumes "tq_inv q" "queue q = t # rest"
  shows "start_head q = q\<lparr>queue := rest, activeTasks := entries (inflight q @ [t]),
        logger := logger q @ [Info_started (task_id t) (source t)],
        inflight := inflight q @ [t]\<rparr>"
proof -
  have "task_id t \<notin> task_id ` set (inflight q)"
    using assms by (auto simp: tq_inv_def)
  then show ?thesis
    using assms by (simp add: start_head_def Let_def tq_inv_def Map_set_entries)
qed

lemma tq_inv_start_head:
  assumes "tq_inv q" "int (Map_size (activeTasks q)) < maxConcurrent q" "queue q \<noteq> []"
  shows "tq_inv (start_head q)"
proof -
  obtain t rest where qq: "queue q = t # rest" using assms(3) by (cases "queue q") auto
  have len: "int (length (inflight q)) < maxConcurrent q"
    using assms(1,2) by (simp add: tq_inv_def Map_size_entries)
  show ?thesis
    unfolding start_head_inv[OF assms(1) qq] using assms(1) qq len
    by (auto simp: tq_inv_def enqueued_ids_append started_ids_append)
qed

lemma tq_inv_drain: "tq_inv q \<Longrightarrow> tq_inv (drain q)"
proof (induction q rule: drain.induct)
  case (1 q)
  show ?case
  proof (cases "int (Map_size (activeTasks q)) < maxConcurrent q \<and> length (queue q) > 0")
    case True
    then have "tq_inv (start_head q)" using "1.prems" tq_inv_start_head by auto
    then have "tq_inv (drain (start_head q))" using "1.IH" True by blast
    then show ?thesis using True by (subst drain.simps) simp
  next
    case False
    then show ?thesis using "1.prems" by (subst drain.simps) auto
  qed
qed

lemma saturated_drain: "saturated (drain q)"
proof (induction q rule: drain.induct)
  case (1 q)
  show ?case
  proof (cases "int (Map_size (activeTasks q)) < maxConcurrent q \<and> length (queue q) > 0")
    case True
    then show ?thesis using "1.IH" by (subst drain.simps) simp
  next
    case False
    then show ?thesis by (subst drain.simps) (auto simp: saturated_def)
  qed
qed

lemma maxConcurrent_drain: "maxConcurrent (drain q) = maxConcurrent q"
proof (induction q rule: drain.induct)
  case (1 q)
  show ?case
  proof (cases "int (Map_size (activeTasks q)) < maxConcurrent q \<and> length (queue q) > 0")
    case True
    then show ?thesis using "1.IH" by (subst drain.simps) (simp add: start_head_def Let_def)
  next
    case False
    then show ?thesis by (subst drain.simps) auto
  qed
qed

lemma tq_inv_enqueue: "tq_inv q \<Longrightarrow> tq_inv (snd (enqueue task q))"
proof -
  assume inv: "tq_inv q"
  show ?thesis
  proof (cases "Map_has (activeTasks q) (task_id task) \<or> list_ex (\<lambda>t. task_id t = task_id task) (queue q)")
    case True
    then show ?thesis using inv by (simp add: enqueue_def tq_inv_def enqueued_ids_append started_ids_append)
  next
    case False
    then have fresh: "task_id task \<notin> task_id ` set (inflight q)" "task_id task \<notin> task_id ` set (queue q)"
      using inv by (auto simp: tq_inv_def Map_has_entries list_ex_iff)
    have "tq_inv (q\<lparr>queue := queue q @ [task],
        logger := logger q @ [Info_enqueued (task_id task) (source task) (Suc (length (queue q))) (activeCount q)]\<rparr>)"
      using inv fresh by (simp add: tq_inv_def enqueued_ids_append started_ids_append)
    then show ?thesis using False
      by (auto simp: enqueue_def Let_def pendingCount_def activeCount_def intro!: tq_inv_drain)
  qed
qed

lemma saturated_enqueue: "saturated q \<Longrightarrow> saturated (snd (enqueue task q))"
  by (auto simp: enqueue_def Let_def saturated_drain) (auto simp: saturated_def)

lemma take_inflight_Some:
  "take_inflight k ts = Some (t, rest) \<Longrightarrow>
     task_id t = k \<and> (\<exists>xs ys. ts = xs @ t # ys \<and> rest = xs @ ys \<and> k \<notin> task_id ` set xs)"
proof (induction ts arbitrary: rest)
  case Nil
  then show ?case by simp
next
  case (Cons a ts)
  show ?case
  proof (cases "task_id a = k")
    case True
    then have "task_id t = k" "a # ts = [] @ t # ts" "rest = [] @ ts" "k \<notin> task_id ` set []"
      using Cons.prems by auto
    then show ?thesis by blast
  next
    case False
    then obtain r where r: "take_inflight k ts = Some (t, r)" "rest = a # r"
      using Cons.prems by (auto split: option.splits)
    from Cons.IH[OF r(1)] obtain xs ys where "task_id t = k" "ts = xs @ t # ys" "r = xs @ ys" "k \<notin> task_id ` set xs"
      by blast
    then have "task_id t = k" "a # ts = (a # xs) @ t # ys" "rest = (a # xs) @ ys"
       "k \<notin> task_id ` set (a # xs)"
      using r False by auto
    then show ?thesis by blast
  qed
qed

lemma take_inflight_None: "take_inflight k ts = None \<longleftrightarrow> k \<notin> task_id ` set ts"
  by (induction ts) (auto split: option.splits)

text \<open>What a settle step does in a state that satisfies the invariant.\<close>

lemma settle_inv:
  assumes inv: "tq_inv q" and tk: "take_inflight k (inflight q) = Some (t, rest)"
  shows "settle k out q = drain (q\<lparr>inflight := rest, activeTasks := entries rest,
            logger := logger q @ (case out of Fulfilled \<Rightarrow> [] | Rejected err \<Rightarrow> [Error_failed k err])
               @ [Info_completed k (source t) (length (queue q)) (length rest)]\<rparr>)"
    and "task_id t = k" and "k \<notin> task_id ` set rest" and "length (inflight q) = Suc (length rest)"
    and "set rest \<subseteq> set (inflight q)" and "distinct (map task_id (rest @ queue q))"
proof -
  from take_inflight_Some[OF tk] obtain xs ys where
    s: "task_id t = k" "inflight q = xs @ t # ys" "rest = xs @ ys" "k \<notin> task_id ` set xs" by blast
  have act: "activeTasks q = entries (inflight q)"
    using inv by (simp add: tq_inv_def)
  have d: "distinct (map task_id (inflight q @ queue q))"
    using inv by (auto simp: tq_inv_def)
  have kys: "k \<notin> task_id ` set ys" using d s by auto
  then have del: "Map_delete k (activeTasks q) = entries rest"
    using s by (simp add: act Map_delete_entries)
  show "task_id t = k" by (rule s(1))
  show "k \<notin> task_id ` set rest" using s kys by auto
  show "length (inflight q) = Suc (length rest)" using s by simp
  show "set rest \<subseteq> set (inflight q)" using s by auto
  show "distinct (map task_id (rest @ queue q))" using d s by auto
  show "settle k out q = drain (q\<lparr>inflight := rest, activeTasks := entries rest,
            logger := logger q @ (case out of Fulfilled \<Rightarrow> [] | Rejected err \<Rightarrow> [Error_failed k err])
               @ [Info_completed k (source t) (length (queue q)) (length rest)]\<rparr>)"
    using tk del s(1)
    by (cases out) (simp_all add: settle_def on_finally_def on_catch_def Let_def pendingCount_def
        activeCount_def Map_size_entries)
qed

lemma tq_inv_settle: "tq_inv q \<Longrightarrow> tq_inv (settle k out q)"
proof -
  assume inv: "tq_inv q"
  show ?thesis
  proof (cases "take_inflight k (inflight q)")
    case None
    then show ?thesis using inv by (simp add: settle_def)
  next
    case (Some p)
    obtain t rest where p: "p = (t, rest)" by (cases p)
    note f = settle_inv[OF inv Some[unfolded p]]
    have "tq_inv (q\<lparr>inflight := rest, activeTasks := entries rest,
            logger := logger q @ (case out of Fulfilled \<Rightarrow> [] | Rejected err \<Rightarrow> [Error_failed k err])
               @ [Info_completed k (source t) (length (queue q)) (length rest)]\<rparr>)"
      using inv f(4,6)
      by (cases out) (simp_all add: tq_inv_def enqueued_ids_append started_ids_append)
    then show ?thesis unfolding f(1)[of out] by (rule tq_inv_drain)
  qed
qed

lemma saturated_settle: "saturated q \<Longrightarrow> saturated (settle k out q)"
  by (auto simp: settle_def on_finally_def Let_def saturated_drain split: option.splits)

lemma maxConcurrent_step: "maxConcurrent (tq_step e q) = maxConcurrent q"
  by (cases e) (auto simp: enqueue_def settle_def on_finally_def on_catch_def Let_def maxConcurrent_drain
      split: option.splits outcome.splits)

lemma tq_inv_run: "tq_inv q \<Longrightarrow> tq_inv (tq_run evs q)"
  unfolding tq_run_def
proof (induction evs arbitrary: q)
  case Nil then show ?case by simp
next
  case (Cons e evs)
  have "tq_inv (tq_step e q)" using Cons.prems by (cases e) (auto simp: tq_inv_enqueue tq_inv_settle)
  then show ?case using Cons.IH by simp
qed

lemma saturated_run: "saturated q \<Longrightarrow> saturated (tq_run evs q)"
  unfolding tq_run_def
proof (induction evs arbitrary: q)
  case Nil then show ?case by simp
next
  case (Cons e evs)
  have "saturated (tq_step e q)" using Cons.prems by (cases e) (auto simp: saturated_enqueue saturated_settle)
  then show ?case using Cons.IH by simp
qed

lemma maxConcurrent_run: "maxConcurrent (tq_run evs q) = maxConcurrent q"
  unfolding tq_run_def by (induction evs arbitrary: q) (auto simp: maxConcurrent_step)

lemma tq_inv_new: "0 \<le> c \<Longrightarrow> tq_inv (TaskQueue_new c)"
  by (simp add: tq_inv_def TaskQueue_new_def entries_def)

lemma saturated_new: "saturated (TaskQueue_new c)"
  by (simp add: saturated_def TaskQueue_new_def)

lemma reachable_inv:
  "0 \<le> c \<Longrightarrow> tq_inv (tq_run evs (TaskQueue_new c)) \<and> saturated (tq_run evs (TaskQueue_new c))
     \<and> maxConcurrent (tq_run evs (TaskQueue_new c)) = c"
  by (simp add: tq_inv_run tq_inv_new saturated_run saturated_new maxConcurrent_run) (simp add: TaskQueue_new_def)

lemmas tq_eval = tq_run_def enqueue_def settle_def on_catch_def on_finally_def TaskQueue_new_def
  Map_has_def Map_delete_def Map_size_def Map_keys_def drain.simps start_head_def Let_def
  pendingCount_def activeCount_def activeTaskIds_def isActive_def isPending_def
  taskA_def taskB_def taskC_def

lemma settle_reachable:
  assumes inv: "tq_inv q" and sat: "saturated q"
    and tk: "take_inflight k (inflight q) = Some (t, rest)"
  defines "q' \<equiv> \<lambda>out. q\<lparr>inflight := rest, activeTasks := entries rest,
            logger := logger q @ (case out of Fulfilled \<Rightarrow> [] | Rejected err \<Rightarrow> [Error_failed k err])
               @ [Info_completed k (source t) (length (queue q)) (length rest)]\<rparr>"
  shows "settle k out q = (if queue q = [] then q' out else start_head (q' out))"
proof -
  note f = settle_inv[OF inv tk]
  have s: "settle k out q = drain (q' out)" unfolding q'_def by (rule f(1))
  have len: "int (length (inflight q)) \<le> maxConcurrent q" using inv by (simp add: tq_inv_def)
  show ?thesis
  proof (cases "queue q = []")
    case True
    then show ?thesis unfolding s by (subst drain.simps) (simp add: q'_def)
  next
    case False
    then have full: "maxConcurrent q = int (length (inflight q))"
      using sat inv len by (simp add: saturated_def tq_inv_def Map_size_entries)
    have c1: "int (Map_size (activeTasks (q' out))) < maxConcurrent (q' out) \<and> length (queue (q' out)) > 0"
      using False full f(4) by (simp add: q'_def Map_size_entries)
    have c2: "\<not> (int (Map_size (activeTasks (start_head (q' out)))) < maxConcurrent (start_head (q' out)))"
    proof -
      obtain h tl' where ht: "queue q = h # tl'" using False by (cases "queue q") auto
      have "task_id h \<notin> task_id ` set rest" using f(6) ht by auto
      then show ?thesis
        using full f(4) ht
        by (simp add: q'_def start_head_def Let_def Map_set_entries Map_size_entries)
    qed
    have "drain (q' out) = drain (start_head (q' out))"
      using c1 by (subst drain.simps) simp
    also have "\<dots> = start_head (q' out)"
      using c2 by (subst drain.simps) simp
    finally show ?thesis using False s by simp
  qed
qed

text \<open>
  C1. Start from a queue constructed with a positive ceiling and let any sequence of
  enqueue calls and body completions happen. In the state reached (hence in every state on
  the way, each being the state reached by a shorter sequence) no key is both active and
  pending, and the number of active tasks is at most the ceiling.
\<close>

theorem active_pending_disjoint_and_bounded:
  "0 < c \<Longrightarrow>
     set (activeTaskIds (tq_run evs (TaskQueue_new c)))
       \<inter> task_id ` set (queue (tq_run evs (TaskQueue_new c))) = {}
     \<and> int (activeCount (tq_run evs (TaskQueue_new c))) \<le> c"
proof -
  assume c: "0 < c"
  let ?w = "tq_run evs (TaskQueue_new c) :: 'a TaskQueue"
  have inv: "tq_inv ?w" and mc: "maxConcurrent ?w = c"
    using reachable_inv[of c evs] c by auto
  have "set (activeTaskIds ?w) \<inter> task_id ` set (queue ?w) = {}"
    using inv by (auto simp: tq_inv_def activeTaskIds_def Map_keys_entries)
  moreover have "int (activeCount ?w) \<le> c"
    using inv mc by (simp add: tq_inv_def activeCount_def Map_size_entries)
  ultimately show ?thesis by simp
qed

theorem active_pending_disjoint_and_bounded_witness:
  "0 < (1::int)
   \<and> activeTaskIds (tq_run [Enqueue taskA, Enqueue taskB, Enqueue taskC, Settle ''a'' Fulfilled]
        (TaskQueue_new 1)) = [''b'']
   \<and> map task_id (queue (tq_run [Enqueue taskA, Enqueue taskB, Enqueue taskC, Settle ''a'' Fulfilled]
        (TaskQueue_new 1))) = [''c'']
   \<and> set (activeTaskIds (tq_run [Enqueue taskA, Enqueue taskB, Enqueue taskC, Settle ''a'' Fulfilled]
        (TaskQueue_new 1)))
       \<inter> task_id ` set (queue (tq_run [Enqueue taskA, Enqueue taskB, Enqueue taskC, Settle ''a'' Fulfilled]
        (TaskQueue_new 1))) = {}
   \<and> int (activeCount (tq_run [Enqueue taskA, Enqueue taskB, Enqueue taskC, Settle ''a'' Fulfilled]
        (TaskQueue_new 1))) \<le> 1"
  using active_pending_disjoint_and_bounded
    [of 1 "[Enqueue taskA, Enqueue taskB, Enqueue taskC, Settle ''a'' Fulfilled]"]
  by (simp add: tq_eval)

text \<open>
  C2. When the key of the offered task is already active or pending, \<^verbatim>\<open>enqueue\<close>
  returns false and the queue is as before: the pending list, the active map, both counts,
  the ceiling and the callbacks in flight are unchanged. The only effect is one debug line
  in the log.
\<close>

theorem duplicate_enqueue_rejected:
  "isActive q (task_id task) \<or> isPending q (task_id task) \<Longrightarrow>
     fst (enqueue task q) = False
     \<and> snd (enqueue task q) = q\<lparr>logger := logger q @ [Debug_skipping (task_id task) (source task)]\<rparr>
     \<and> pendingCount (snd (enqueue task q)) = pendingCount q
     \<and> activeCount (snd (enqueue task q)) = activeCount q
     \<and> queue (snd (enqueue task q)) = queue q
     \<and> activeTasks (snd (enqueue task q)) = activeTasks q"
  by (auto simp: enqueue_def isActive_def isPending_def pendingCount_def activeCount_def)

theorem duplicate_enqueue_rejected_witness:
  "(isActive (tq_run [Enqueue taskA, Enqueue taskB] (TaskQueue_new 1)) (task_id taskA)
      \<or> isPending (tq_run [Enqueue taskA, Enqueue taskB] (TaskQueue_new 1)) (task_id taskA))
   \<and> isPending (tq_run [Enqueue taskA, Enqueue taskB] (TaskQueue_new 1)) (task_id taskB)
   \<and> fst (enqueue taskA (tq_run [Enqueue taskA, Enqueue taskB] (TaskQueue_new 1))) = False
   \<and> pendingCount (snd (enqueue taskA (tq_run [Enqueue taskA, Enqueue taskB] (TaskQueue_new 1)))) = 1
   \<and> activeCount (snd (enqueue taskA (tq_run [Enqueue taskA, Enqueue taskB] (TaskQueue_new 1)))) = 1
   \<and> queue (snd (enqueue taskA (tq_run [Enqueue taskA, Enqueue taskB] (TaskQueue_new 1))))
       = queue (tq_run [Enqueue taskA, Enqueue taskB] (TaskQueue_new 1))
   \<and> activeTasks (snd (enqueue taskA (tq_run [Enqueue taskA, Enqueue taskB] (TaskQueue_new 1))))
       = activeTasks (tq_run [Enqueue taskA, Enqueue taskB] (TaskQueue_new 1))"
  using duplicate_enqueue_rejected
    [of "tq_run [Enqueue taskA, Enqueue taskB] (TaskQueue_new 1)" taskA]
  by (simp add: tq_eval)

text \<open>
  C3. (a) When the key of the offered task is not empty and neither active nor pending,
  \<^verbatim>\<open>enqueue\<close> puts the task at the tail of the pending list, logs, drains, and returns
  true. The code does not look at whether the key is empty. (b) In every state reached from
  a queue with a positive ceiling, the ids in the order they were admitted are the ids in the
  order they were started, followed by the pending ids in queue order: tasks start in
  admission order, and what has not started is still pending in that order. (c) With
  ceiling 1 and three tasks A, B, C with different ids enqueued in this order, only A has
  started after the three calls; B starts when A settles and C when B settles, whatever the
  outcomes.
\<close>

theorem fifo_admission_and_start_order:
  "(task_id task \<noteq> [] \<and> \<not> isActive q (task_id task) \<and> \<not> isPending q (task_id task) \<longrightarrow>
      enqueue task q =
        (True, drain (q\<lparr>queue := queue q @ [task],
                       logger := logger q @ [Info_enqueued (task_id task) (source task)
                                               (pendingCount q + 1) (activeCount q)]\<rparr>)))
   \<and> (0 < c \<longrightarrow>
        enqueued_ids (logger (tq_run evs (TaskQueue_new c))) =
          started_ids (logger (tq_run evs (TaskQueue_new c)))
            @ map task_id (queue (tq_run evs (TaskQueue_new c))))
   \<and> (distinct [task_id A, task_id B, task_id C] \<longrightarrow>
        started_ids (logger (tq_run [Enqueue A, Enqueue B, Enqueue C] (TaskQueue_new 1)))
          = [task_id A]
      \<and> started_ids (logger (tq_run [Enqueue A, Enqueue B, Enqueue C,
             Settle (task_id A) outA] (TaskQueue_new 1)))
          = [task_id A, task_id B]
      \<and> started_ids (logger (tq_run [Enqueue A, Enqueue B, Enqueue C,
             Settle (task_id A) outA, Settle (task_id B) outB] (TaskQueue_new 1)))
          = [task_id A, task_id B, task_id C])"
proof (intro conjI impI)
  assume "task_id task \<noteq> [] \<and> \<not> isActive q (task_id task) \<and> \<not> isPending q (task_id task)"
  then show "enqueue task q =
        (True, drain (q\<lparr>queue := queue q @ [task],
                       logger := logger q @ [Info_enqueued (task_id task) (source task)
                                               (pendingCount q + 1) (activeCount q)]\<rparr>))"
    by (simp add: enqueue_def isActive_def isPending_def Let_def pendingCount_def activeCount_def)
next
  assume "0 < c"
  then have "tq_inv (tq_run evs (TaskQueue_new c) :: 'b TaskQueue)"
    using reachable_inv[of c evs] by simp
  then show "enqueued_ids (logger (tq_run evs (TaskQueue_new c) :: 'b TaskQueue)) =
          started_ids (logger (tq_run evs (TaskQueue_new c)))
            @ map task_id (queue (tq_run evs (TaskQueue_new c)))"
    by (simp add: tq_inv_def)
next
  assume d: "distinct [task_id A, task_id B, task_id C]"
  then show "started_ids (logger (tq_run [Enqueue A, Enqueue B, Enqueue C] (TaskQueue_new 1)))
          = [task_id A]"
    by (simp add: tq_eval)
next
  assume d: "distinct [task_id A, task_id B, task_id C]"
  then show "started_ids (logger (tq_run [Enqueue A, Enqueue B, Enqueue C,
             Settle (task_id A) outA] (TaskQueue_new 1)))
          = [task_id A, task_id B]"
    by (cases outA) (auto simp: tq_eval)
next
  assume d: "distinct [task_id A, task_id B, task_id C]"
  then show "started_ids (logger (tq_run [Enqueue A, Enqueue B, Enqueue C,
             Settle (task_id A) outA, Settle (task_id B) outB] (TaskQueue_new 1)))
          = [task_id A, task_id B, task_id C]"
    by (cases outA; cases outB) (auto simp: tq_eval)
qed

theorem fifo_admission_and_start_order_witness:
  "(task_id taskC \<noteq> []
      \<and> \<not> isActive (tq_run [Enqueue taskA, Enqueue taskB] (TaskQueue_new 1)) (task_id taskC)
      \<and> \<not> isPending (tq_run [Enqueue taskA, Enqueue taskB] (TaskQueue_new 1)) (task_id taskC))
   \<and> fst (enqueue taskC (tq_run [Enqueue taskA, Enqueue taskB] (TaskQueue_new 1)))
   \<and> map task_id (queue (snd (enqueue taskC (tq_run [Enqueue taskA, Enqueue taskB] (TaskQueue_new 1)))))
       = [''b'', ''c'']
   \<and> 0 < (2::int)
   \<and> enqueued_ids (logger (tq_run [Enqueue taskA, Enqueue taskB, Enqueue taskC] (TaskQueue_new 2)))
       = started_ids (logger (tq_run [Enqueue taskA, Enqueue taskB, Enqueue taskC] (TaskQueue_new 2)))
           @ map task_id (queue (tq_run [Enqueue taskA, Enqueue taskB, Enqueue taskC] (TaskQueue_new 2)))
   \<and> distinct [task_id taskA, task_id taskB, task_id taskC]
   \<and> started_ids (logger (tq_run [Enqueue taskA, Enqueue taskB, Enqueue taskC,
         Settle (task_id taskA) (Rejected ''boom''), Settle (task_id taskB) Fulfilled] (TaskQueue_new 1)))
       = [''a'', ''b'', ''c'']"
  using fifo_admission_and_start_order
    [where task = taskC and q = "tq_run [Enqueue taskA, Enqueue taskB] (TaskQueue_new 1)"
       and c = 2 and evs = "[Enqueue taskA, Enqueue taskB, Enqueue taskC]"
       and A = taskA and B = taskB and C = taskC
       and outA = "Rejected ''boom''" and outB = Fulfilled]
  by (simp add: tq_eval)

text \<open>
  C4. Take any state reached from a queue with a positive ceiling and any active key. When
  the body of that task settles, the pending list, the active map and the callbacks in
  flight afterwards are the same whether the body was fulfilled or rejected; a rejection
  only adds an error line to the log, and nothing of it reaches \<^verbatim>\<open>enqueue\<close> or its
  caller. After the completion the key is neither active nor pending nor in flight (the task
  is not run again), and when something was pending, its head has been started by the drain
  inside the completion, with no other call.
\<close>

theorem completion_path_same_for_failure:
  assumes "0 < c" and "isActive (tq_run evs (TaskQueue_new c)) k"
  shows "queue (settle k (Rejected err) (tq_run evs (TaskQueue_new c)))
           = queue (settle k Fulfilled (tq_run evs (TaskQueue_new c)))
       \<and> activeTasks (settle k (Rejected err) (tq_run evs (TaskQueue_new c)))
           = activeTasks (settle k Fulfilled (tq_run evs (TaskQueue_new c)))
       \<and> inflight (settle k (Rejected err) (tq_run evs (TaskQueue_new c)))
           = inflight (settle k Fulfilled (tq_run evs (TaskQueue_new c)))
       \<and> Error_failed k err \<in> set (logger (settle k (Rejected err) (tq_run evs (TaskQueue_new c))))
       \<and> \<not> isActive (settle k out (tq_run evs (TaskQueue_new c))) k
       \<and> \<not> isPending (settle k out (tq_run evs (TaskQueue_new c))) k
       \<and> k \<notin> task_id ` set (inflight (settle k out (tq_run evs (TaskQueue_new c))))
       \<and> (queue (tq_run evs (TaskQueue_new c)) \<noteq> [] \<longrightarrow>
            isActive (settle k out (tq_run evs (TaskQueue_new c)))
              (task_id (hd (queue (tq_run evs (TaskQueue_new c)))))
          \<and> queue (settle k out (tq_run evs (TaskQueue_new c)))
              = tl (queue (tq_run evs (TaskQueue_new c))))"
proof -
  let ?w = "tq_run evs (TaskQueue_new c) :: 'a TaskQueue"
  have inv: "tq_inv ?w" and sat: "saturated ?w"
    using reachable_inv[of c evs] assms(1) by auto
  have act: "activeTasks ?w = entries (inflight ?w)" using inv by (simp add: tq_inv_def)
  have "k \<in> task_id ` set (inflight ?w)"
    using assms(2) by (simp add: isActive_def act Map_has_entries)
  then obtain t rest where tk: "take_inflight k (inflight ?w) = Some (t, rest)"
    using take_inflight_None[of k "inflight ?w"] by (cases "take_inflight k (inflight ?w)") auto
  note f = settle_inv[OF inv tk]
  note r = settle_reachable[OF inv sat tk]
  have kq: "k \<notin> task_id ` set (queue ?w)"
    using inv f(2) take_inflight_Some[OF tk] by (auto simp: tq_inv_def)
  have fresh: "queue ?w \<noteq> [] \<Longrightarrow> task_id (hd (queue ?w)) \<notin> task_id ` set rest"
    using f(6) by (cases "queue ?w") auto
  have hk: "queue ?w \<noteq> [] \<Longrightarrow> task_id (hd (queue ?w)) \<noteq> k"
    using kq by (cases "queue ?w") auto
  have tlq: "k \<notin> task_id ` set (tl (queue ?w))"
    using kq by (cases "queue ?w") auto
  show ?thesis
  proof (cases "queue ?w = []")
    case True
    then show ?thesis using f(3)
      by (simp add: r isActive_def isPending_def Map_has_entries)
  next
    case False
    then show ?thesis using f(3) fresh hk tlq
      by (auto simp: r isActive_def isPending_def start_head_def Let_def Map_set_entries
          Map_has_entries list_ex_iff image_iff)
  qed
qed

theorem completion_path_same_for_failure_witness:
  "0 < (1::int)
   \<and> isActive (tq_run [Enqueue taskA, Enqueue taskB, Enqueue taskC] (TaskQueue_new 1)) ''a''
   \<and> queue (tq_run [Enqueue taskA, Enqueue taskB, Enqueue taskC] (TaskQueue_new 1)) \<noteq> []
   \<and> queue (settle ''a'' (Rejected ''boom'') (tq_run [Enqueue taskA, Enqueue taskB, Enqueue taskC] (TaskQueue_new 1)))
       = queue (settle ''a'' Fulfilled (tq_run [Enqueue taskA, Enqueue taskB, Enqueue taskC] (TaskQueue_new 1)))
   \<and> activeTaskIds (settle ''a'' (Rejected ''boom'') (tq_run [Enqueue taskA, Enqueue taskB, Enqueue taskC] (TaskQueue_new 1)))
       = [''b'']
   \<and> map task_id (queue (settle ''a'' (Rejected ''boom'') (tq_run [Enqueue taskA, Enqueue taskB, Enqueue taskC] (TaskQueue_new 1))))
       = [''c'']
   \<and> \<not> isActive (settle ''a'' (Rejected ''boom'') (tq_run [Enqueue taskA, Enqueue taskB, Enqueue taskC] (TaskQueue_new 1))) ''a''
   \<and> isActive (settle ''a'' (Rejected ''boom'') (tq_run [Enqueue taskA, Enqueue taskB, Enqueue taskC] (TaskQueue_new 1)))
       (task_id (hd (queue (tq_run [Enqueue taskA, Enqueue taskB, Enqueue taskC] (TaskQueue_new 1)))))"
  using completion_path_same_for_failure
    [where c = 1 and evs = "[Enqueue taskA, Enqueue taskB, Enqueue taskC]" and k = "''a''"
       and err = "''boom''" and out = "Rejected ''boom''"]
  by (simp add: tq_eval)

section \<open>Properties of the two caches\<close>

lemma set_Map_set_distinct:
  "distinct (map fst m) \<Longrightarrow> (k, v') \<in> set (Map_set k v m) \<Longrightarrow> v' = v"
  by (induction m) (auto simp: rev_image_eqI split: if_splits)

lemma set_Map_set_other:
  "k' \<noteq> k \<Longrightarrow> (k', v') \<in> set (Map_set k v m) \<longleftrightarrow> (k', v') \<in> set m"
  by (induction m) (auto split: if_splits)

lemma set_Map_set_same_subset:
  "(k, v') \<in> set (Map_set k v m) \<Longrightarrow> v' = v \<or> (k, v') \<in> set m"
  by (induction m) (auto split: if_splits)

lemma distinct_Map_set: "distinct (map fst m) \<Longrightarrow> distinct (map fst (Map_set k v m))"
proof (induction m)
  case Nil then show ?case by simp
next
  case (Cons a m)
  have "fst ` set (Map_set k v m) = insert k (fst ` set m)"
    using Map_has_set[of k v m] by (auto simp: Map_has_def)
  then show ?case using Cons by (cases a) auto
qed

text \<open>The sweep keeps exactly the entries whose key was not found expired.\<close>

lemma sweep_loop_filter:
  "fst (sweep_loop ts now ttl es (m, c)) =
     filter (\<lambda>e. \<not> (\<exists>v. (fst e, v) \<in> set es \<and> now - ts v > ttl)) m"
proof (induction es arbitrary: m c)
  case Nil then show ?case by simp
next
  case (Cons a es)
  obtain key v where a: "a = (key, v)" by (cases a)
  show ?case
    unfolding a using Cons.IH
    by (auto simp: Map_delete_def intro!: filter_cong)
qed

lemma distinct_sweep: "distinct (map fst m) \<Longrightarrow> distinct (map fst (fst (sweep_loop ts now ttl es (m, c))))"
  by (simp add: sweep_loop_filter distinct_map_filter)

lemma hb_wf_step: "hb_wf h \<Longrightarrow> hb_wf (hb_step e h)"
proof -
  assume wf: "hb_wf h"
  obtain now ev where e: "e = (now, ev)" by (cases e)
  show ?thesis
  proof (cases ev)
    case (Mark key)
    then show ?thesis using wf e by (simp add: hb_wf_def markProcessed_def distinct_Map_set)
  next
    case Sweep
    obtain m c where sw: "sweep_loop timestamp now itemTtlMs (processedItems h) (processedItems h, 0) = (m, c)"
      by (cases "sweep_loop timestamp now itemTtlMs (processedItems h) (processedItems h, 0)")
    have "distinct (map fst m)"
      using distinct_sweep[of "processedItems h" timestamp now itemTtlMs "processedItems h" 0] wf sw
      by (simp add: hb_wf_def)
    then show ?thesis using Sweep e sw by (simp add: hb_wf_def cleanupProcessedItems_def)
  qed
qed

lemma hb_wf_run: "hb_wf h \<Longrightarrow> hb_wf (hb_run evs h)"
  unfolding hb_run_def by (induction evs arbitrary: h) (auto simp: hb_wf_step)

lemma hb_wf_new: "hb_wf Heartbeat_new"
  by (simp add: hb_wf_def Heartbeat_new_def)

lemma isProcessed_cleanup:
  "isProcessed (cleanupProcessedItems now h) k \<longleftrightarrow>
     isProcessed h k \<and> \<not> (\<exists>item. (k, item) \<in> set (processedItems h) \<and> now - timestamp item > itemTtlMs)"
proof -
  obtain m c where sw: "sweep_loop timestamp now itemTtlMs (processedItems h) (processedItems h, 0) = (m, c)"
    by (cases "sweep_loop timestamp now itemTtlMs (processedItems h) (processedItems h, 0)")
  have m: "m = filter (\<lambda>e. \<not> (\<exists>v. (fst e, v) \<in> set (processedItems h) \<and> now - timestamp v > itemTtlMs)) (processedItems h)"
    using sweep_loop_filter[of timestamp now itemTtlMs "processedItems h" "processedItems h" 0] sw by simp
  show ?thesis
    by (auto simp: isProcessed_def cleanupProcessedItems_def sw Map_has_def m)
qed

lemma entries_cleanup:
  "(k, item) \<in> set (processedItems (cleanupProcessedItems now h)) \<Longrightarrow> (k, item) \<in> set (processedItems h)"
proof -
  obtain m c where sw: "sweep_loop timestamp now itemTtlMs (processedItems h) (processedItems h, 0) = (m, c)"
    by (cases "sweep_loop timestamp now itemTtlMs (processedItems h) (processedItems h, 0)")
  have m: "m = filter (\<lambda>e. \<not> (\<exists>v. (fst e, v) \<in> set (processedItems h) \<and> now - timestamp v > itemTtlMs)) (processedItems h)"
    using sweep_loop_filter[of timestamp now itemTtlMs "processedItems h" "processedItems h" 0] sw by simp
  assume "(k, item) \<in> set (processedItems (cleanupProcessedItems now h))"
  then show ?thesis by (simp add: cleanupProcessedItems_def sw m)
qed

lemma fresh_since_step:
  assumes "fresh_since t0 x h"
    and "ev = Mark x \<longrightarrow> t0 \<le> t" and "ev = Sweep \<longrightarrow> t - t0 \<le> itemTtlMs"
  shows "fresh_since t0 x (hb_step (t, ev) h)"
proof (cases ev)
  case (Mark key)
  show ?thesis
  proof (cases "key = x")
    case True
    then show ?thesis using assms Mark
      by (auto simp: fresh_since_def isProcessed_def markProcessed_def Map_has_set
          dest!: set_Map_set_same_subset)
  next
    case False
    then show ?thesis using assms Mark
      by (auto simp: fresh_since_def isProcessed_def markProcessed_def Map_has_set set_Map_set_other)
  qed
next
  case Sweep
  have "\<not> (\<exists>item. (x, item) \<in> set (processedItems h) \<and> t - timestamp item > itemTtlMs)"
    using assms Sweep by (fastforce simp: fresh_since_def)
  then show ?thesis using assms(1) Sweep
    by (auto simp: fresh_since_def isProcessed_cleanup dest: entries_cleanup)
qed

lemma fresh_since_run:
  assumes "fresh_since t0 x h"
    and "\<forall>(t, ev) \<in> set evs. (ev = Mark x \<longrightarrow> t0 \<le> t) \<and> (ev = Sweep \<longrightarrow> t - t0 \<le> itemTtlMs)"
  shows "fresh_since t0 x (hb_run evs h)"
  using assms unfolding hb_run_def
proof (induction evs arbitrary: h)
  case Nil then show ?case by simp
next
  case (Cons e evs)
  obtain t ev where e: "e = (t, ev)" by (cases e)
  have "fresh_since t0 x (hb_step e h)"
    unfolding e using Cons.prems e by (intro fresh_since_step) auto
  then show ?case using Cons by simp
qed

text \<open>Without a new mark, every entry of the key carries the time of the mark, and a
  sweep later than the TTL after the mark removes the key for good.\<close>

lemma stamped_step: "stamped t0 x h \<Longrightarrow> ev \<noteq> Mark x \<Longrightarrow> stamped t0 x (hb_step (t, ev) h)"
  by (cases ev) (auto simp: stamped_def markProcessed_def set_Map_set_other dest: entries_cleanup)

lemma absent_step: "\<not> isProcessed h x \<Longrightarrow> ev \<noteq> Mark x \<Longrightarrow> \<not> isProcessed (hb_step (t, ev) h) x"
proof (cases ev)
  case (Mark key)
  assume "\<not> isProcessed h x" "ev \<noteq> Mark x"
  then show ?thesis using Mark by (simp add: isProcessed_def markProcessed_def Map_has_set)
next
  case Sweep
  assume "\<not> isProcessed h x"
  then show ?thesis using Sweep by (simp add: isProcessed_cleanup)
qed

lemma late_sweep_removes:
  "stamped t0 x h \<Longrightarrow> t - t0 > itemTtlMs \<Longrightarrow> \<not> isProcessed (hb_step (t, Sweep) h) x"
  unfolding hb_step.simps isProcessed_cleanup
  by (force simp: stamped_def isProcessed_def Map_has_def)

lemma absent_run:
  "\<not> isProcessed h x \<Longrightarrow> \<forall>e \<in> set evs. snd e \<noteq> Mark x \<Longrightarrow> \<not> isProcessed (hb_run evs h) x"
  unfolding hb_run_def
proof (induction evs arbitrary: h)
  case Nil then show ?case by simp
next
  case (Cons e evs)
  then show ?case using absent_step[of h x "snd e" "fst e"] by (cases e) auto
qed

lemma swept_run:
  assumes "stamped t0 x h" and "\<forall>e \<in> set evs. snd e \<noteq> Mark x"
    and "\<exists>t. (t, Sweep) \<in> set evs \<and> t - t0 > itemTtlMs"
  shows "\<not> isProcessed (hb_run evs h) x"
  using assms
proof (induction evs arbitrary: h)
  case Nil then show ?case by simp
next
  case (Cons e evs)
  obtain t ev where e: "e = (t, ev)" by (cases e)
  have st: "stamped t0 x (hb_step e h)" using Cons.prems e stamped_step by auto
  have run: "hb_run (e # evs) h = hb_run evs (hb_step e h)" by (simp add: hb_run_def)
  show ?case
  proof (cases "ev = Sweep \<and> t - t0 > itemTtlMs")
    case True
    then have "\<not> isProcessed (hb_step e h) x" using late_sweep_removes Cons.prems(1) e by auto
    then show ?thesis unfolding run using absent_run Cons.prems(2) by auto
  next
    case False
    then have "\<exists>t. (t, Sweep) \<in> set evs \<and> t - t0 > itemTtlMs" using Cons.prems(3) e by auto
    then show ?thesis unfolding run using Cons.IH[OF st] Cons.prems(2) by auto
  qed
qed

lemma mark_fresh_stamped:
  "hb_wf h \<Longrightarrow> fresh_since t0 x (markProcessed t0 x h) \<and> stamped t0 x (markProcessed t0 x h)"
  by (auto simp: hb_wf_def fresh_since_def stamped_def isProcessed_def markProcessed_def Map_has_set
      dest: set_Map_set_distinct)

text \<open>
  C7, as the code has it. Take a cache reached from the empty one, and mark \<open>x\<close> at
  time \<open>t0\<close>. The lookup does not compare times: \<open>x\<close> is seen for as long as no sweep
  has removed it. (a) If since then every sweep ran at most the TTL after \<open>t0\<close>, and every
  new mark of \<open>x\<close> not before \<open>t0\<close>, then \<open>x\<close> is seen: so it is seen at every time up
  to the TTL after the mark, and after that until the next sweep. (b) If \<open>x\<close> was not
  marked again and some sweep ran more than the TTL after \<open>t0\<close>, then \<open>x\<close> is not seen.
\<close>

theorem seen_until_swept_after_ttl:
  "((\<forall>(t, ev) \<in> set evs. (ev = Mark x \<longrightarrow> t0 \<le> t) \<and> (ev = Sweep \<longrightarrow> t - t0 \<le> itemTtlMs)) \<longrightarrow>
      isProcessed (hb_run evs (markProcessed t0 x (hb_run pre Heartbeat_new))) x)
   \<and> ((\<forall>e \<in> set evs. snd e \<noteq> Mark x) \<and> (\<exists>t. (t, Sweep) \<in> set evs \<and> t - t0 > itemTtlMs) \<longrightarrow>
      \<not> isProcessed (hb_run evs (markProcessed t0 x (hb_run pre Heartbeat_new))) x)"
proof -
  have wf: "hb_wf (hb_run pre Heartbeat_new)" by (simp add: hb_wf_run hb_wf_new)
  note m = mark_fresh_stamped[OF wf, of t0 x]
  show ?thesis
    using fresh_since_run[of t0 x "markProcessed t0 x (hb_run pre Heartbeat_new)" evs]
      swept_run[of t0 x "markProcessed t0 x (hb_run pre Heartbeat_new)" evs] m
    by (auto simp: fresh_since_def)
qed

lemmas hb_eval = hb_run_def hb_at_def markProcessed_def cleanupProcessedItems_def isProcessed_def
  Heartbeat_new_def itemTtlMs_def Map_has_def Map_delete_def

text \<open>
  The claim that \<open>x\<close> is not seen at any time after the TTL has elapsed fails: marked at
  time 0 and swept at 3600000, exactly the TTL later, \<open>x\<close> is kept, and a lookup at
  3600001 still sees it; only the sweep at 3900000 removes it.
\<close>

theorem seen_after_ttl_counterexample:
  "3600001 - 0 > itemTtlMs
   \<and> isProcessed (hb_at 3600001 [(3600000, Sweep), (3900000, Sweep)] (markProcessed 0 ''x'' Heartbeat_new)) ''x''"
  by (simp add: hb_eval)

theorem seen_until_swept_after_ttl_witness:
  "isProcessed (hb_run [(300000, Sweep), (300001, Mark ''y''), (3600000, Sweep)]
         (markProcessed 0 ''x'' (hb_run [] Heartbeat_new))) ''x''
   \<and> (3900000, Sweep) \<in> set [(3600000, Sweep), (3900000, Sweep)]
   \<and> 3900000 - 0 > itemTtlMs
   \<and> \<not> isProcessed (hb_run [(3600000, Sweep), (3900000, Sweep)]
         (markProcessed 0 ''x'' (hb_run [] Heartbeat_new))) ''x''"
proof -
  have h1: "\<forall>(t, ev) \<in> set [(300000, Sweep), (300001, Mark ''y''), (3600000, Sweep)].
       (ev = Mark ''x'' \<longrightarrow> 0 \<le> t) \<and> (ev = Sweep \<longrightarrow> t - 0 \<le> itemTtlMs)"
    by (simp add: itemTtlMs_def)
  have h2: "\<forall>e \<in> set [(3600000, Sweep), (3900000, Sweep)]. snd e \<noteq> Mark ''x''"
    by simp
  have h3: "\<exists>t. (t, Sweep) \<in> set [(3600000, Sweep), (3900000, Sweep)] \<and> t - 0 > itemTtlMs"
    by (rule exI[of _ 3900000]) (simp add: itemTtlMs_def)
  have c1: "isProcessed (hb_run [(300000, Sweep), (300001, Mark ''y''), (3600000, Sweep)]
         (markProcessed 0 ''x'' (hb_run [] Heartbeat_new))) ''x''"
    using seen_until_swept_after_ttl
      [of "[(300000, Sweep), (300001, Mark ''y''), (3600000, Sweep)]" "''x''" 0 "[]"] h1
    by blast
  have c2: "\<not> isProcessed (hb_run [(3600000, Sweep), (3900000, Sweep)]
         (markProcessed 0 ''x'' (hb_run [] Heartbeat_new))) ''x''"
    using seen_until_swept_after_ttl [of "[(3600000, Sweep), (3900000, Sweep)]" "''x''" 0 "[]"] h2 h3
    by blast
  show ?thesis using c1 c2 by (simp add: itemTtlMs_def)
qed

lemma Map_has_sweep:
  "Map_has (fst (sweep_loop ts now ttl m (m, c))) k \<longleftrightarrow>
     Map_has m k \<and> \<not> (\<exists>v. (k, v) \<in> set m \<and> now - ts v > ttl)"
  by (auto simp: sweep_loop_filter Map_has_def)

lemma set_sweep_subset: "set (fst (sweep_loop ts now ttl es (m, c))) \<subseteq> set m"
  by (auto simp: sweep_loop_filter)

lemma recorded_request:
  assumes "recorded d t0 s" and "handleGithubWebhook secret hmac_hex JSON_parse now req s = Inr (resp, s')"
    and "d \<noteq> []"
  shows "recorded d t0 s' \<and> dispatched_of d s' = dispatched_of d s"
proof (cases "check_signature secret hmac_hex req")
  case Sig_ok
  show ?thesis
  proof (cases "x_github_delivery req")
    case None
    then show ?thesis using assms Sig_ok
      by (auto simp: handleGithubWebhook_def parse_and_dispatch_def recorded_def dispatched_of_def
          split: option.splits if_splits)
  next
    case (Some d')
    show ?thesis
    proof (cases "d' = d")
      case True
      then show ?thesis using assms Sig_ok Some
        by (auto simp: handleGithubWebhook_def parse_and_dispatch_def recorded_def dispatched_of_def
            split: option.splits if_splits)
    next
      case False
      then show ?thesis using assms Sig_ok Some
        by (auto simp: handleGithubWebhook_def parse_and_dispatch_def recorded_def dispatched_of_def
            Map_has_set set_Map_set_other split: option.splits if_splits)
    qed
  qed
qed (use assms in \<open>auto simp: handleGithubWebhook_def recorded_def dispatched_of_def\<close>)

lemma recorded_cleanup:
  assumes "recorded d t0 s" and "now - t0 \<le> deduplicationTtlMs"
  shows "recorded d t0 (cleanupDeliveries now s) \<and> dispatched_of d (cleanupDeliveries now s) = dispatched_of d s"
proof -
  obtain m c where sw: "sweep_loop (\<lambda>timestamp. timestamp) now deduplicationTtlMs
             (recentDeliveries s) (recentDeliveries s, 0) = (m, c)"
    by (cases "sweep_loop (\<lambda>timestamp. timestamp) now deduplicationTtlMs
             (recentDeliveries s) (recentDeliveries s, 0)")
  have m: "m = fst (sweep_loop (\<lambda>timestamp. timestamp) now deduplicationTtlMs
             (recentDeliveries s) (recentDeliveries s, 0))" using sw by simp
  have "Map_has m d" unfolding m Map_has_sweep using assms by (auto simp: recorded_def)
  moreover have "set m \<subseteq> set (recentDeliveries s)" unfolding m by (rule set_sweep_subset)
  ultimately show ?thesis using assms(1)
    by (auto simp: recorded_def cleanupDeliveries_def sw dispatched_of_def)
qed

lemma recorded_run:
  assumes "recorded d t0 s"
    and "\<forall>(t, ev) \<in> set evs. ev = Cleanup_deliveries \<longrightarrow> t - t0 \<le> deduplicationTtlMs"
    and "ws_run secret hmac_hex JSON_parse evs s = Inr s'"
    and "d \<noteq> []"
  shows "recorded d t0 s' \<and> dispatched_of d s' = dispatched_of d s"
  using assms
proof (induction evs arbitrary: s)
  case Nil then show ?case by simp
next
  case (Cons e evs)
  obtain t ev where e: "e = (t, ev)" by (cases e)
  obtain s1 where s1: "ws_step secret hmac_hex JSON_parse e s = Inr s1"
     and run: "ws_run secret hmac_hex JSON_parse evs s1 = Inr s'"
    using Cons.prems(3) by (auto split: sum.splits)
  have "recorded d t0 s1 \<and> dispatched_of d s1 = dispatched_of d s"
  proof (cases ev)
    case (Github_request req)
    then show ?thesis using s1 e recorded_request[OF Cons.prems(1) _ Cons.prems(4)]
      by (auto split: sum.splits)
  next
    case Cleanup_deliveries
    then show ?thesis using s1 e recorded_cleanup[OF Cons.prems(1), of t] Cons.prems(2) by auto
  qed
  then show ?case using Cons.IH[of s1] Cons.prems(2,4) run by auto
qed

text \<open>
  C10. A request passes the signature check, carries a delivery id \<open>d\<close> that is not in
  the cache, and has a body that does not parse. It is answered 400 and nothing is
  dispatched, but \<open>d\<close> is now in the cache. After any further requests (none of which
  makes the signature comparison throw) and any sweeps, the sweeps at most the TTL after
  the first delivery, a request with the same delivery id
  that passes the signature check is answered 200 \<^verbatim>\<open>duplicate\<close> whatever its body, and
  the handler has still not been called for \<open>d\<close>.
\<close>

theorem invalid_json_consumes_delivery_id:
  assumes "check_signature secret hmac_hex r1 = Sig_ok"
    and "x_github_delivery r1 = Some d" and "d \<noteq> []"
    and "\<not> Map_has (recentDeliveries s) d"
    and "JSON_parse (rawBody r1) = None"
    and "handleGithubWebhook secret hmac_hex JSON_parse t0 r1 s = Inr (resp1, s1)"
    and "\<forall>(t, ev) \<in> set evs. ev = Cleanup_deliveries \<longrightarrow> t - t0 \<le> deduplicationTtlMs"
    and "ws_run secret hmac_hex JSON_parse evs s1 = Inr s2"
    and "check_signature secret hmac_hex r2 = Sig_ok"
    and "x_github_delivery r2 = Some d"
  shows "resp1 = \<lparr>status = 400, body = Error_body ''Invalid JSON''\<rparr>
       \<and> dispatched s1 = dispatched s
       \<and> Map_has (recentDeliveries s1) d
       \<and> handleGithubWebhook secret hmac_hex JSON_parse t r2 s2 =
           Inr (\<lparr>status = 200, body = Status_body ''duplicate''\<rparr>,
                s2\<lparr>logger_ws := logger_ws s2 @ [Debug_duplicate d]\<rparr>)
       \<and> dispatched_of d s2 = dispatched_of d s"
proof -
  have s1: "s1 = s\<lparr>recentDeliveries := recentDeliveries s @ [(d, t0)]\<rparr>"
    and r1: "resp1 = \<lparr>status = 400, body = Error_body ''Invalid JSON''\<rparr>"
    using assms(1-6) by (auto simp: handleGithubWebhook_def parse_and_dispatch_def Map_set_fresh)
  have rec1: "recorded d t0 s1"
    using assms(4) by (force simp: s1 recorded_def Map_has_def)
  note rec2 = recorded_run[OF rec1 assms(7,8,3)]
  have "handleGithubWebhook secret hmac_hex JSON_parse t r2 s2 =
           Inr (\<lparr>status = 200, body = Status_body ''duplicate''\<rparr>,
                s2\<lparr>logger_ws := logger_ws s2 @ [Debug_duplicate d]\<rparr>)"
    using rec2 assms(3,9,10) by (simp add: handleGithubWebhook_def recorded_def)
  moreover have "dispatched_of d s1 = dispatched_of d s" by (simp add: s1 dispatched_of_def)
  ultimately show ?thesis using r1 rec1 rec2 by (simp add: recorded_def s1)
qed


lemmas ws_eval = handleGithubWebhook_def parse_and_dispatch_def check_signature_def
  cleanupDeliveries_def deduplicationTtlMs_def setGithubHandler_def WebhookServer_new_def
  parse_empty_object_def delivery1_def delivery1_retry_def delivery2_def
  Map_has_def Map_delete_def dispatched_of_def

theorem invalid_json_consumes_delivery_id_witness:
  "check_signature [] (\<lambda>k b. []) delivery1 = Sig_ok
   \<and> x_github_delivery delivery1 = Some ''d1'' \<and> ''d1'' \<noteq> []
   \<and> \<not> Map_has (recentDeliveries (setGithubHandler WebhookServer_new)) ''d1''
   \<and> parse_empty_object (rawBody delivery1) = None
   \<and> handleGithubWebhook [] (\<lambda>k b. []) parse_empty_object 1000 delivery1
        (setGithubHandler WebhookServer_new)
       = Inr (\<lparr>status = 400, body = Error_body ''Invalid JSON''\<rparr>,
              \<lparr>recentDeliveries = [(''d1'', 1000)], githubHandler = True,
                 dispatched = [], logger_ws = []\<rparr>)
   \<and> 600000 - 1000 \<le> deduplicationTtlMs
   \<and> ws_run [] (\<lambda>k b. []) parse_empty_object
        [(2000, Github_request delivery2), (600000, Cleanup_deliveries)]
        \<lparr>recentDeliveries = [(''d1'', 1000)], githubHandler = True,
           dispatched = [], logger_ws = []\<rparr>
       = Inr \<lparr>recentDeliveries = [(''d1'', 1000), (''d2'', 2000)], githubHandler = True,
               dispatched = [(JObj [], delivery2)], logger_ws = []\<rparr>
   \<and> check_signature [] (\<lambda>k b. []) delivery1_retry = Sig_ok
   \<and> x_github_delivery delivery1_retry = Some ''d1''
   \<and> parse_empty_object (rawBody delivery1_retry) = Some (JObj [])
   \<and> handleGithubWebhook [] (\<lambda>k b. []) parse_empty_object 600500 delivery1_retry
        \<lparr>recentDeliveries = [(''d1'', 1000), (''d2'', 2000)], githubHandler = True,
           dispatched = [(JObj [], delivery2)], logger_ws = []\<rparr>
       = Inr (\<lparr>status = 200, body = Status_body ''duplicate''\<rparr>,
              \<lparr>recentDeliveries = [(''d1'', 1000), (''d2'', 2000)], githubHandler = True,
                 dispatched = [(JObj [], delivery2)], logger_ws = [Debug_duplicate ''d1'']\<rparr>)
   \<and> dispatched_of ''d1''
        \<lparr>recentDeliveries = [(''d1'', 1000), (''d2'', 2000)], githubHandler = True,
           dispatched = [(JObj [], delivery2)], logger_ws = []\<rparr> = []"
proof -
  have h1: "check_signature [] (\<lambda>k b. []) delivery1 = Sig_ok" by (simp add: ws_eval)
  have h2: "x_github_delivery delivery1 = Some ''d1''" by (simp add: ws_eval)
  have h3: "''d1'' \<noteq> []" by simp
  have h4: "\<not> Map_has (recentDeliveries (setGithubHandler WebhookServer_new)) ''d1''"
    by (simp add: ws_eval)
  have h5: "parse_empty_object (rawBody delivery1) = None" by (simp add: ws_eval)
  have h6: "handleGithubWebhook [] (\<lambda>k b. []) parse_empty_object 1000 delivery1
        (setGithubHandler WebhookServer_new)
       = Inr (\<lparr>status = 400, body = Error_body ''Invalid JSON''\<rparr>,
              \<lparr>recentDeliveries = [(''d1'', 1000)], githubHandler = True,
                 dispatched = [], logger_ws = []\<rparr>)"
    by (simp add: ws_eval)
  have h7: "\<forall>(t, ev) \<in> set [(2000, Github_request delivery2), (600000, Cleanup_deliveries)].
         ev = Cleanup_deliveries \<longrightarrow> t - 1000 \<le> deduplicationTtlMs"
    by (simp add: deduplicationTtlMs_def)
  have h8: "ws_run [] (\<lambda>k b. []) parse_empty_object
        [(2000, Github_request delivery2), (600000, Cleanup_deliveries)]
        \<lparr>recentDeliveries = [(''d1'', 1000)], githubHandler = True,
           dispatched = [], logger_ws = []\<rparr>
       = Inr \<lparr>recentDeliveries = [(''d1'', 1000), (''d2'', 2000)], githubHandler = True,
               dispatched = [(JObj [], delivery2)], logger_ws = []\<rparr>"
    by (simp add: ws_eval)
  have h9: "check_signature [] (\<lambda>k b. []) delivery1_retry = Sig_ok" by (simp add: ws_eval)
  have h10: "x_github_delivery delivery1_retry = Some ''d1''" by (simp add: ws_eval)
  have h11: "parse_empty_object (rawBody delivery1_retry) = Some (JObj [])" by (simp add: ws_eval)
  note c = invalid_json_consumes_delivery_id [OF h1 h2 h3 h4 h5 h6 h7 h8 h9 h10, of 600500]
  have d0: "dispatched_of ''d1'' (setGithubHandler WebhookServer_new) = []" by (simp add: ws_eval)
  have h7': "600000 - 1000 \<le> deduplicationTtlMs" by (simp add: deduplicationTtlMs_def)
  show ?thesis using h1 h2 h3 h4 h5 h6 h7' h8 h9 h10 h11 c d0 by simp
qed

section \<open>Properties of the scheduler\<close>

subsection \<open>Decimal digits\<close>

lemma digit_table:
  "list_all (\<lambda>n. list_all (\<lambda>m. digit_char n = digit_char m \<longrightarrow> n = m) [0..<10]
      \<and> digit_char n \<noteq> CHR ''-'') [0..<10]"
  by code_simp

lemma digit_char_inj:
  assumes "n < 10" "m < 10" "digit_char n = digit_char m"
  shows "n = m"
  using digit_table assms by (auto simp: list_all_iff)

lemma digit_char_not_minus:
  assumes "n < 10"
  shows "digit_char n \<noteq> CHR ''-''"
  using digit_table assms by (auto simp: list_all_iff)

lemma digits_nonempty: "digits n \<noteq> []"
  by (subst digits.simps) simp

lemma digits_no_minus: "CHR ''-'' \<notin> set (digits n)"
proof (induction n rule: digits.induct)
  case (1 n)
  show ?case
  proof (cases "n < 10")
    case True
    then show ?thesis using digit_char_not_minus[of n] by (subst digits.simps) auto
  next
    case False
    then show ?thesis using "1.IH" digit_char_not_minus[of "n mod 10"]
      by (subst digits.simps) auto
  qed
qed

lemma digits_inj: "digits n = digits m \<Longrightarrow> n = m"
proof (induction n arbitrary: m rule: digits.induct)
  case (1 n)
  show ?case
  proof (cases "n < 10")
    case n: True
    show ?thesis
    proof (cases "m < 10")
      case True
      then show ?thesis using n "1.prems" digit_char_inj[of n m]
        by (simp add: digits.simps[of n] digits.simps[of m])
    next
      case False
      then show ?thesis using n "1.prems" digits_nonempty[of "m div 10"]
        by (simp add: digits.simps[of n] digits.simps[of m])
    qed
  next
    case n: False
    show ?thesis
    proof (cases "m < 10")
      case True
      then show ?thesis using n "1.prems" digits_nonempty[of "n div 10"]
        by (simp add: digits.simps[of n] digits.simps[of m])
    next
      case False
      then have "digits (n div 10) = digits (m div 10)" "digit_char (n mod 10) = digit_char (m mod 10)"
        using n "1.prems" by (simp_all add: digits.simps[of n] digits.simps[of m])
      then have "n div 10 = m div 10" "n mod 10 = m mod 10"
        using "1.IH"[OF n] digit_char_inj[of "n mod 10" "m mod 10"] by auto
      then show ?thesis by (metis div_mult_mod_eq)
    qed
  qed
qed

lemma split_at_last:
  assumes "xs @ c # ys = xs' @ c # ys'" and "c \<notin> set ys" and "c \<notin> set ys'"
  shows "xs = xs' \<and> ys = ys'"
proof -
  have "rev ys @ c # rev xs = rev ys' @ c # rev xs'"
    using arg_cong[OF assms(1), of rev] by simp
  then have "takeWhile (\<lambda>x. x \<noteq> c) (rev ys @ c # rev xs) = takeWhile (\<lambda>x. x \<noteq> c) (rev ys' @ c # rev xs')"
    by simp
  moreover have "takeWhile (\<lambda>x. x \<noteq> c) (rev zs @ c # ws) = rev zs" if "c \<notin> set zs" for zs ws
    using that by (subst takeWhile_append2) auto
  ultimately have "rev ys = rev ys'"
    using assms(2,3) by simp
  then have "ys = ys'" by simp
  then show ?thesis using assms(1) by simp
qed

lemma taskId_inj:
  assumes "0 \<le> t1" "0 \<le> t2" "taskId j1 t1 = taskId j2 t2"
  shows "toString (name j1) = toString (name j2) \<and> t1 = t2"
proof -
  have "toString (name j1) @ CHR ''-'' # digits (nat t1) = toString (name j2) @ CHR ''-'' # digits (nat t2)"
    using assms by (simp add: taskId_def number_toString_def)
  then have "toString (name j1) = toString (name j2) \<and> digits (nat t1) = digits (nat t2)"
    by (rule split_at_last) (simp_all add: digits_no_minus)
  then show ?thesis using digits_inj[of "nat t1" "nat t2"] assms(1,2) by auto
qed

subsection \<open>Stopping and scheduling tasks\<close>

lemma length_stop_task [simp]: "length (stop_task h reg) = length reg"
  by (simp add: stop_task_def)

lemma length_stop_loop [simp]: "length (stop_loop hs reg) = length reg"
  by (induction hs arbitrary: reg) auto

lemma nth_stop_task:
  "i < length reg \<Longrightarrow> stop_task h reg ! i = (if i = h then stopped (reg ! i) else reg ! i)"
  by (simp add: stop_task_def stopped_def nth_list_update)

lemma stopped_idem [simp]: "stopped (stopped t) = stopped t"
  by (simp add: stopped_def)

lemma nth_stop_loop:
  "i < length reg \<Longrightarrow> stop_loop hs reg ! i = (if i \<in> set hs then stopped (reg ! i) else reg ! i)"
proof (induction hs arbitrary: reg)
  case Nil then show ?case by simp
next
  case (Cons h hs)
  then show ?case by (simp add: nth_stop_task)
qed

lemma stopped_not_running: "\<not> running t \<Longrightarrow> stopped t = t"
  by (simp add: stopped_def)

lemma stopCronTasks_inv:
  assumes "sched_inv s"
  shows "stopCronTasks s = s\<lparr>cron_registry := map stopped (cron_registry s), cronTasks := []\<rparr>"
proof -
  have "stop_loop (cronTasks s) (cron_registry s) = map stopped (cron_registry s)"
  proof (rule nth_equalityI)
    show "length (stop_loop (cronTasks s) (cron_registry s)) = length (map stopped (cron_registry s))"
      by simp
  next
    fix i assume "i < length (stop_loop (cronTasks s) (cron_registry s))"
    then have i: "i < length (cron_registry s)" by simp
    show "stop_loop (cronTasks s) (cron_registry s) ! i = map stopped (cron_registry s) ! i"
      using i assms stopped_not_running[of "cron_registry s ! i"]
      by (auto simp: nth_stop_loop sched_inv_def)
  qed
  then show ?thesis by (simp add: stopCronTasks_def)
qed

lemma schedule_loop_eq:
  "schedule_loop js s =
     s\<lparr>cron_registry := cron_registry s @ map (\<lambda>j. cron_schedule (schedule j) j) js,
       cronTasks := cronTasks s @ [length (cron_registry s) ..< length (cron_registry s) + length js]\<rparr>"
proof (induction js arbitrary: s)
  case Nil then show ?case by simp
next
  case (Cons j js)
  have "[n ..< n + Suc m] = n # [Suc n ..< Suc n + m]" for n m :: nat
    by (simp add: upt_rec[of n])
  then show ?case by (simp add: Cons.IH)
qed

subsection \<open>Loading\<close>

lemma check_entry_throws: "check_entry validate job = Entry_throws \<longleftrightarrow> job = JNull"
  by (auto simp: check_entry_def split: option.splits)

lemma load_entry_not_null:
  "job \<noteq> JNull \<Longrightarrow>
     load_entry validate job s =
       Inr (s\<lparr>jobs := jobs s @ jobs_of [check_entry validate job],
              logger_s := logger_s s @ entry_log validate job\<rparr>)"
  using check_entry_throws[of validate job]
  by (cases "check_entry validate job") (simp_all add: load_entry_def entry_log_def)

lemma load_entry_null: "load_entry validate JNull s = Inl (TypeError, s)"
  by (simp add: load_entry_def check_entry_def)

lemma jobs_of_append: "jobs_of (vs @ ws) = jobs_of vs @ jobs_of ws"
  by (induction vs rule: jobs_of.induct) auto

lemma jobs_of_Cons: "jobs_of (v # vs) = jobs_of [v] @ jobs_of vs"
  using jobs_of_append[of "[v]" vs] by simp

lemma load_entries_no_null:
  "JNull \<notin> set es \<Longrightarrow>
     load_entries validate es s =
       Inr (s\<lparr>jobs := jobs s @ jobs_of (map (check_entry validate) es),
              logger_s := logger_s s @ concat (map (entry_log validate) es)\<rparr>)"
proof (induction es arbitrary: s)
  case Nil
  then show ?case by simp
next
  case (Cons e es)
  then have e: "e \<noteq> JNull" and es: "JNull \<notin> set es" by auto
  show ?case
    using Cons.IH[OF es] jobs_of_Cons[of "check_entry validate e" "map (check_entry validate) es"]
    by (simp add: load_entry_not_null[OF e])
qed

lemma load_entries_null:
  "JNull \<in> set es \<Longrightarrow>
     load_entries validate es s =
       Inl (TypeError,
            s\<lparr>jobs := jobs s @ jobs_of (map (check_entry validate) (takeWhile (\<lambda>e. e \<noteq> JNull) es)),
              logger_s := logger_s s @ concat (map (entry_log validate) (takeWhile (\<lambda>e. e \<noteq> JNull) es))\<rparr>)"
proof (induction es arbitrary: s)
  case Nil then show ?case by simp
next
  case (Cons e es)
  show ?case
  proof (cases "e = JNull")
    case True
    then show ?thesis by (simp add: load_entry_null)
  next
    case False
    then have "JNull \<in> set es" using Cons.prems by auto
    then show ?thesis
      using Cons.IH False
        jobs_of_Cons[of "check_entry validate e"
          "map (check_entry validate) (takeWhile (\<lambda>e. e \<noteq> JNull) es)"]
      by (simp add: load_entry_not_null[OF False])
  qed
qed

text \<open>What a load does to the tasks: it only adds running tasks, for the jobs it schedules.\<close>

lemma loadJobs_tasks:
  "cron_registry (loadJobs validate src s) =
     cron_registry s @ map (\<lambda>j. cron_schedule (schedule j) j) (scheduled_by validate src)
   \<and> cronTasks (loadJobs validate src s) =
     cronTasks s @ [length (cron_registry s) ..<
                    length (cron_registry s) + length (scheduled_by validate src)]
   \<and> taskQueue (loadJobs validate src s) = taskQueue s
   \<and> watching (loadJobs validate src s) = watching s"
proof (cases src)
  case (Parsed v)
  show ?thesis
  proof (cases v)
    case (JArr es)
    show ?thesis
    proof (cases "JNull \<in> set es")
      case True
      then show ?thesis using Parsed JArr
        by (simp add: loadJobs_def scheduled_by_def load_entries_null)
    next
      case False
      then show ?thesis using Parsed JArr
        by (simp add: loadJobs_def scheduled_by_def load_entries_no_null scheduleCronTasks_def
            schedule_loop_eq)
    qed
  qed (simp_all add: loadJobs_def scheduled_by_def Parsed)
qed (simp_all add: loadJobs_def scheduled_by_def)

lemma loadJobs_failure:
  "src = Read_throws \<or> src = Parse_throws \<Longrightarrow>
     loadJobs validate src s = s\<lparr>logger_s := logger_s s @ [Error_failed_load]\<rparr>"
  by (auto simp: loadJobs_def)

lemma running_cron_schedule [simp]: "running (cron_schedule e j)" "callback_job (cron_schedule e j) = j"
  by (simp_all add: cron_schedule_def)

lemma sched_inv_loadJobs: "sched_inv s \<Longrightarrow> sched_inv (loadJobs validate src s)"
  using loadJobs_tasks[of validate src s]
  by (auto simp: sched_inv_def nth_append)

lemma sched_inv_stopCronTasks: "sched_inv s \<Longrightarrow> sched_inv (stopCronTasks s)"
  by (simp add: stopCronTasks_inv) (simp add: sched_inv_def stopped_def)

lemma enqueueJob_tasks:
  "cron_registry (enqueueJob ch now job s) = cron_registry s
   \<and> cronTasks (enqueueJob ch now job s) = cronTasks s
   \<and> watching (enqueueJob ch now job s) = watching s
   \<and> jobs (enqueueJob ch now job s) = jobs s"
  by (simp add: enqueueJob_def Let_def)

lemma sched_inv_log: "sched_inv (s\<lparr>logger_s := l\<rparr>) = sched_inv s"
  by (simp add: sched_inv_def)

lemma sched_inv_watching: "sched_inv (s\<lparr>watching := b\<rparr>) = sched_inv s"
  by (simp add: sched_inv_def)

lemma sched_inv_step: "sched_inv s \<Longrightarrow> sched_inv (sched_step validate ch ev s)"
proof (cases ev)
  case (Start src)
  assume "sched_inv s"
  then show ?thesis using Start by (simp add: start_def sched_inv_watching sched_inv_loadJobs)
next
  case Stop
  assume "sched_inv s"
  then show ?thesis using Stop by (simp add: stop_def sched_inv_watching sched_inv_stopCronTasks)
next
  case (File_changed src)
  assume "sched_inv s"
  then show ?thesis using File_changed
    by (simp add: on_change_def sched_inv_loadJobs sched_inv_stopCronTasks sched_inv_log)
next
  case (Cron_fire h now)
  assume "sched_inv s"
  then show ?thesis using Cron_fire enqueueJob_tasks
    by (simp add: sched_inv_def Let_def)
qed

lemma sched_inv_run: "sched_inv s \<Longrightarrow> sched_inv (sched_run validate ch evs s)"
  unfolding sched_run_def by (induction evs arbitrary: s) (auto simp: sched_inv_step)

lemma sched_inv_new: "sched_inv (Scheduler_new q)"
  by (simp add: sched_inv_def Scheduler_new_def)

text \<open>No step starts a task again: what exists stays, and what is stopped stays stopped.\<close>

lemma extends_refl: "extends reg reg"
  by (simp add: extends_def)

lemma extends_trans: "extends a b \<Longrightarrow> extends b c \<Longrightarrow> extends a c"
  by (auto simp: extends_def)

lemma extends_stop: "extends (cron_registry s) (cron_registry (stopCronTasks s))"
  by (auto simp: extends_def stopCronTasks_def nth_stop_loop stopped_def)

lemma extends_load: "extends (cron_registry s) (cron_registry (loadJobs validate src s))"
  using loadJobs_tasks[of validate src s] by (auto simp: extends_def nth_append)

lemma extends_step: "extends (cron_registry s) (cron_registry (sched_step validate ch ev s))"
proof (cases ev)
  case (Start src)
  then show ?thesis using extends_load[of s validate src] by (simp add: start_def)
next
  case Stop
  then show ?thesis using extends_stop[of s] by (simp add: stop_def)
next
  case (File_changed src)
  have "extends (cron_registry s) (cron_registry (stopCronTasks (s\<lparr>logger_s := logger_s s @ [Info_changed_reloading]\<rparr>)))"
    using extends_stop[of "s\<lparr>logger_s := logger_s s @ [Info_changed_reloading]\<rparr>"] by simp
  then show ?thesis using File_changed extends_load extends_trans
    by (auto simp: on_change_def extends_refl)
next
  case (Cron_fire h now)
  then show ?thesis using enqueueJob_tasks by (simp add: Let_def extends_refl)
qed

lemma extends_run: "extends (cron_registry s) (cron_registry (sched_run validate ch evs s))"
  unfolding sched_run_def
proof (induction evs arbitrary: s)
  case Nil then show ?case by (simp add: extends_refl)
next
  case (Cons e evs)
  show ?case using extends_step[of s validate ch e] Cons[of "sched_step validate ch e s"] extends_trans
    by auto
qed

lemma reachable_sched_inv: "sched_inv (sched_run validate ch evs (Scheduler_new q))"
  by (simp add: sched_inv_run sched_inv_new)

lemma on_change_eq:
  assumes "sched_inv s"
  shows "on_change validate src s =
     loadJobs validate src
       (s\<lparr>logger_s := logger_s s @ [Info_changed_reloading],
          cron_registry := map stopped (cron_registry s), cronTasks := []\<rparr>)"
proof -
  have "sched_inv (s\<lparr>logger_s := logger_s s @ [Info_changed_reloading]\<rparr>)"
    using assms by (simp add: sched_inv_log)
  from stopCronTasks_inv[OF this] show ?thesis by (simp add: on_change_def)
qed

lemmas sched_eval = sched_run_def start_def stop_def on_change_def loadJobs_def load_entry_def
  check_entry_def scheduleCronTasks_def stopCronTasks_def stop_task_def cron_schedule_def
  Scheduler_new_def TaskQueue_new_def active_jobs_def five_fields_def
  entry_nightly_def entry_hourly_def entry_bad_cron_def job_nightly_def job_hourly_def
  enqueueJob_def channel_of_def Let_def

text \<open>
  C5, as the code has it. The watcher's callback stops the tasks before it loads. When the
  read or the parse then throws, in any state the scheduler can be in, the error is caught
  and logged and the callback returns: the job list in memory is the one of the last load
  and the queue is untouched, but every task has been stopped and none is created, so no
  job fires until a later reload succeeds.
\<close>

theorem failed_reload_stops_timers:
  assumes "s = sched_run validate ch evs (Scheduler_new q)"
    and "src = Read_throws \<or> src = Parse_throws"
  shows "on_change validate src s =
           s\<lparr>logger_s := logger_s s @ [Info_changed_reloading, Error_failed_load],
             cron_registry := map stopped (cron_registry s), cronTasks := []\<rparr>
       \<and> jobs (on_change validate src s) = jobs s
       \<and> taskQueue (on_change validate src s) = taskQueue s
       \<and> active_jobs (on_change validate src s) = []"
proof -
  have inv: "sched_inv s" using assms(1) reachable_sched_inv by simp
  have eq: "on_change validate src s =
           s\<lparr>logger_s := logger_s s @ [Info_changed_reloading, Error_failed_load],
             cron_registry := map stopped (cron_registry s), cronTasks := []\<rparr>"
    using assms(2) by (auto simp: on_change_eq[OF inv] loadJobs_failure)
  have "active_jobs (on_change validate src s) = []"
    unfolding eq by (simp add: active_jobs_def stopped_def filter_map comp_def)
  then show ?thesis using eq by simp
qed

text \<open>
  The claim that the tasks of the previous load keep running fails: after a start with
  one valid job its task runs, and after a change of the file to something that does not
  parse no task runs.
\<close>

theorem failed_reload_keeps_timers_counterexample:
  "active_jobs (sched_run five_fields [] [Start (Parsed (JArr [entry_nightly]))]
       (Scheduler_new (TaskQueue_new 2))) = [job_nightly]
   \<and> active_jobs (sched_run five_fields [] [Start (Parsed (JArr [entry_nightly])), File_changed Parse_throws]
       (Scheduler_new (TaskQueue_new 2))) = []"
  by (simp add: sched_eval)

theorem failed_reload_stops_timers_witness:
  "(Parse_throws = Read_throws \<or> Parse_throws = Parse_throws)
   \<and> jobs (on_change five_fields Parse_throws
        (sched_run five_fields [] [Start (Parsed (JArr [entry_nightly]))] (Scheduler_new (TaskQueue_new 2))))
       = [job_nightly]
   \<and> active_jobs (on_change five_fields Parse_throws
        (sched_run five_fields [] [Start (Parsed (JArr [entry_nightly]))] (Scheduler_new (TaskQueue_new 2))))
       = []"
proof -
  have j: "jobs (sched_run five_fields [] [Start (Parsed (JArr [entry_nightly]))]
       (Scheduler_new (TaskQueue_new 2))) = [job_nightly]"
    by (simp add: sched_eval)
  note t = failed_reload_stops_timers
      [where s = "sched_run five_fields [] [Start (Parsed (JArr [entry_nightly]))]
                    (Scheduler_new (TaskQueue_new 2))"
         and validate = five_fields and ch = "[]"
         and evs = "[Start (Parsed (JArr [entry_nightly]))]" and q = "TaskQueue_new 2"
         and src = Parse_throws, OF refl disjI2 [OF refl]]
  have a: "jobs (on_change five_fields Parse_throws
        (sched_run five_fields [] [Start (Parsed (JArr [entry_nightly]))] (Scheduler_new (TaskQueue_new 2))))
       = jobs (sched_run five_fields [] [Start (Parsed (JArr [entry_nightly]))]
            (Scheduler_new (TaskQueue_new 2)))"
    using t by blast
  have b: "active_jobs (on_change five_fields Parse_throws
        (sched_run five_fields [] [Start (Parsed (JArr [entry_nightly]))] (Scheduler_new (TaskQueue_new 2))))
       = []"
    using t by blast
  show ?thesis using a b j by simp
qed

text \<open>
  C6. In any state the scheduler can be in, a reload first stops the tasks: in the state
  between \<^verbatim>\<open>stopCronTasks\<close> and \<^verbatim>\<open>loadJobs\<close> no task runs. After the reload the
  tasks that existed before are all stopped and the running tasks are the new ones, one for
  each job the load scheduled, in order. Whatever happens later, a task from before the
  reload is never running again, and a firing of it changes nothing: a job the new list
  dropped does not fire again, and a job that survived fires from its new task only.
\<close>

theorem reload_stops_old_timers_first:
  assumes "s = sched_run validate ch evs (Scheduler_new q)"
    and "s' = on_change validate src s"
  shows "(\<forall>t \<in> set (cron_registry
              (stopCronTasks (s\<lparr>logger_s := logger_s s @ [Info_changed_reloading]\<rparr>))). \<not> running t)
       \<and> s' = loadJobs validate src
                 (stopCronTasks (s\<lparr>logger_s := logger_s s @ [Info_changed_reloading]\<rparr>))
       \<and> cron_registry s' =
           map stopped (cron_registry s)
             @ map (\<lambda>j. cron_schedule (schedule j) j) (scheduled_by validate src)
       \<and> active_jobs s' = scheduled_by validate src
       \<and> (\<forall>h < length (cron_registry s).
             \<not> running (cron_registry (sched_run validate ch evs' s') ! h)
           \<and> sched_step validate ch (Cron_fire h now) (sched_run validate ch evs' s')
               = sched_run validate ch evs' s')"
proof -
  have inv: "sched_inv s" using assms(1) reachable_sched_inv by simp
  have inv': "sched_inv (s\<lparr>logger_s := logger_s s @ [Info_changed_reloading]\<rparr>)"
    using inv by (simp add: sched_inv_log)
  have 1: "\<forall>t \<in> set (cron_registry
              (stopCronTasks (s\<lparr>logger_s := logger_s s @ [Info_changed_reloading]\<rparr>))). \<not> running t"
    by (simp add: stopCronTasks_inv[OF inv'] stopped_def)
  have 2: "s' = loadJobs validate src
                 (stopCronTasks (s\<lparr>logger_s := logger_s s @ [Info_changed_reloading]\<rparr>))"
    using assms(2) by (simp add: on_change_def)
  have 3: "cron_registry s' =
           map stopped (cron_registry s)
             @ map (\<lambda>j. cron_schedule (schedule j) j) (scheduled_by validate src)"
    unfolding assms(2) on_change_eq[OF inv] using loadJobs_tasks by simp
  have 4: "active_jobs s' = scheduled_by validate src"
    by (simp add: active_jobs_def 3 stopped_def comp_def filter_map)
  have 5: "\<not> running (cron_registry (sched_run validate ch evs' s') ! h)
           \<and> sched_step validate ch (Cron_fire h now) (sched_run validate ch evs' s')
               = sched_run validate ch evs' s'" if h: "h < length (cron_registry s)" for h
  proof -
    have "\<not> running (cron_registry s' ! h)" using h by (simp add: 3 nth_append stopped_def)
    moreover have "h < length (cron_registry s')" using h by (simp add: 3)
    ultimately have "\<not> running (cron_registry (sched_run validate ch evs' s') ! h)"
      using extends_run[of s' validate ch evs'] by (auto simp: extends_def)
    then show ?thesis by simp
  qed
  show ?thesis using 1 2 3 4 5 by blast
qed

theorem reload_stops_old_timers_first_witness:
  "length (cron_registry (sched_run five_fields []
       [Start (Parsed (JArr [entry_nightly, entry_hourly]))] (Scheduler_new (TaskQueue_new 2)))) = 2
   \<and> active_jobs (sched_run five_fields []
       [Start (Parsed (JArr [entry_nightly, entry_hourly]))] (Scheduler_new (TaskQueue_new 2)))
       = [job_nightly, job_hourly]
   \<and> active_jobs (on_change five_fields (Parsed (JArr [entry_hourly]))
        (sched_run five_fields [] [Start (Parsed (JArr [entry_nightly, entry_hourly]))]
           (Scheduler_new (TaskQueue_new 2))))
       = [job_hourly]
   \<and> \<not> running (cron_registry (sched_run five_fields [] [Cron_fire 0 1700000000000]
        (on_change five_fields (Parsed (JArr [entry_hourly]))
           (sched_run five_fields [] [Start (Parsed (JArr [entry_nightly, entry_hourly]))]
              (Scheduler_new (TaskQueue_new 2))))) ! 0)
   \<and> \<not> running (cron_registry (sched_run five_fields [] [Cron_fire 0 1700000000000]
        (on_change five_fields (Parsed (JArr [entry_hourly]))
           (sched_run five_fields [] [Start (Parsed (JArr [entry_nightly, entry_hourly]))]
              (Scheduler_new (TaskQueue_new 2))))) ! 1)"
proof -
  let ?s = "sched_run five_fields [] [Start (Parsed (JArr [entry_nightly, entry_hourly]))]
              (Scheduler_new (TaskQueue_new 2))"
  have l: "length (cron_registry ?s) = 2" and a: "active_jobs ?s = [job_nightly, job_hourly]"
    by (simp_all add: sched_eval)
  have sb: "scheduled_by five_fields (Parsed (JArr [entry_hourly])) = [job_hourly]"
    by (simp add: scheduled_by_def sched_eval)
  note t = reload_stops_old_timers_first
      [where s = ?s and validate = five_fields and ch = "[]"
         and evs = "[Start (Parsed (JArr [entry_nightly, entry_hourly]))]" and q = "TaskQueue_new 2"
         and src = "Parsed (JArr [entry_hourly])"
         and s' = "on_change five_fields (Parsed (JArr [entry_hourly])) ?s"
         and evs' = "[Cron_fire 0 1700000000000]" and now = 0, OF refl refl]
  have b: "active_jobs (on_change five_fields (Parsed (JArr [entry_hourly])) ?s) = [job_hourly]"
    using t [THEN conjunct2, THEN conjunct2, THEN conjunct2, THEN conjunct1] sb by simp
  have c: "\<forall>h < length (cron_registry ?s).
      \<not> running (cron_registry (sched_run five_fields [] [Cron_fire 0 1700000000000]
        (on_change five_fields (Parsed (JArr [entry_hourly])) ?s)) ! h)"
    using t [THEN conjunct2, THEN conjunct2, THEN conjunct2, THEN conjunct2] by blast
  have "\<not> running (cron_registry (sched_run five_fields [] [Cron_fire 0 1700000000000]
        (on_change five_fields (Parsed (JArr [entry_hourly])) ?s)) ! 0)"
    and "\<not> running (cron_registry (sched_run five_fields [] [Cron_fire 0 1700000000000]
        (on_change five_fields (Parsed (JArr [entry_hourly])) ?s)) ! 1)"
    using c l by simp_all
  then show ?thesis using l a b by simp
qed

text \<open>Entries that are not \<^verbatim>\<open>null\<close> are validated one by one.\<close>

lemma valid_siblings_loaded_without_null:
  assumes "sched_inv s" and "JNull \<notin> set es"
  shows "active_jobs (on_change validate (Parsed (JArr es)) s) = jobs_of (map (check_entry validate) es)
       \<and> jobs (on_change validate (Parsed (JArr es)) s) = jobs_of (map (check_entry validate) es)"
  using assms(2)
  by (simp add: on_change_eq[OF assms(1)] loadJobs_def load_entries_no_null scheduleCronTasks_def
      schedule_loop_eq active_jobs_def stopped_def comp_def filter_map)

lemma example_entries:
  "check_entry five_fields entry_nightly = Entry_ok job_nightly"
  "check_entry five_fields entry_hourly = Entry_ok job_hourly"
  "check_entry five_fields entry_bad_cron = Entry_bad_cron (JStr ''broken'') (JStr ''every day'')"
  "check_entry five_fields JNull = Entry_throws"
  by (simp_all add: sched_eval)

text \<open>
  C8 fails on an entry that is \<^verbatim>\<open>null\<close>: reading \<^verbatim>\<open>job.name\<close> throws, the
  \<^verbatim>\<open>catch\<close> around the whole load logs the error, and no task is created, not even
  for the valid entries. With an invalid cron expression in the place of \<^verbatim>\<open>null\<close> the
  two valid siblings are loaded.
\<close>

theorem null_entry_aborts_load:
  "active_jobs (start five_fields (Parsed (JArr [entry_nightly, entry_bad_cron, entry_hourly]))
        (Scheduler_new (TaskQueue_new 2))) = [job_nightly, job_hourly]
   \<and> active_jobs (start five_fields (Parsed (JArr [entry_nightly, JNull, entry_hourly]))
        (Scheduler_new (TaskQueue_new 2))) = []
   \<and> logger_s (start five_fields (Parsed (JArr [entry_nightly, JNull, entry_hourly]))
        (Scheduler_new (TaskQueue_new 2))) = [Error_failed_load]"
  by (simp add: sched_eval)

text \<open>
  C9. (a) When the job has no channel of its own (none, or a falsy one) and no fallback
  channel is configured, \<^verbatim>\<open>enqueueJob\<close> only logs a warning: the queue, whose
  \<^verbatim>\<open>enqueue\<close> logs every call, is unchanged, and so it is after the firing of a
  running task for such a job. (b) Otherwise it offers the queue one task,
  with the key \<^verbatim>\<open>scheduler-<name>-<now>\<close>. (c) For times from 1970 on, two keys are equal
  only when the job names read the same and the times are equal.
\<close>

theorem cron_firing_channel_and_key:
  "(\<not> truthy_opt (slackChannel job) \<and> ch = [] \<longrightarrow>
      enqueueJob ch now job s = s\<lparr>logger_s := logger_s s @ [Warn_no_channel (name job)]\<rparr>
      \<and> taskQueue (enqueueJob ch now job s) = taskQueue s)
   \<and> (h < length (cron_registry s) \<and> running (cron_registry s ! h)
        \<and> \<not> truthy_opt (slackChannel (callback_job (cron_registry s ! h))) \<and> ch = [] \<longrightarrow>
      taskQueue (sched_step validate ch (Cron_fire h now) s) = taskQueue s)
   \<and> (truthy_opt (slackChannel job) \<or> ch \<noteq> [] \<longrightarrow>
      enqueueJob ch now job s =
        s\<lparr>taskQueue :=
            snd (enqueue \<lparr>task_id = ''scheduler-'' @ toString (name job) @ ''-'' @ number_toString now,
                           source = ''scheduler'',
                           execute = Job_body (channel_of ch job) job\<rparr> (taskQueue s))\<rparr>)
   \<and> (0 \<le> t1 \<and> 0 \<le> t2 \<and> taskId j1 t1 = taskId j2 t2 \<longrightarrow>
      toString (name j1) = toString (name j2) \<and> t1 = t2)"
proof (intro conjI impI)
  assume "\<not> truthy_opt (slackChannel job) \<and> ch = []"
  then show "enqueueJob ch now job s = s\<lparr>logger_s := logger_s s @ [Warn_no_channel (name job)]\<rparr>"
    by (simp add: enqueueJob_def channel_of_def)
  then show "taskQueue (enqueueJob ch now job s) = taskQueue s" by simp
next
  assume "h < length (cron_registry s) \<and> running (cron_registry s ! h)
        \<and> \<not> truthy_opt (slackChannel (callback_job (cron_registry s ! h))) \<and> ch = []"
  then show "taskQueue (sched_step validate ch (Cron_fire h now) s) = taskQueue s"
    by (simp add: Let_def enqueueJob_def channel_of_def)
next
  assume c: "truthy_opt (slackChannel job) \<or> ch \<noteq> []"
  have "truthy (channel_of ch job)"
    using c by (cases "slackChannel job") (auto simp: channel_of_def)
  then show "enqueueJob ch now job s =
        s\<lparr>taskQueue :=
            snd (enqueue \<lparr>task_id = ''scheduler-'' @ toString (name job) @ ''-'' @ number_toString now,
                           source = ''scheduler'',
                           execute = Job_body (channel_of ch job) job\<rparr> (taskQueue s))\<rparr>"
    by (simp add: enqueueJob_def Let_def taskId_def)
next
  assume "0 \<le> t1 \<and> 0 \<le> t2 \<and> taskId j1 t1 = taskId j2 t2"
  then have "toString (name j1) = toString (name j2) \<and> t1 = t2" using taskId_inj by blast
  then show "toString (name j1) = toString (name j2)" and "t1 = t2" by simp_all
qed

theorem cron_firing_channel_and_key_witness:
  "(\<not> truthy_opt (slackChannel job_hourly) \<and> ([]::string) = [])
   \<and> taskQueue (enqueueJob [] 1700000000000 job_hourly (Scheduler_new (TaskQueue_new 2)))
       = TaskQueue_new 2
   \<and> logger_s (enqueueJob [] 1700000000000 job_hourly (Scheduler_new (TaskQueue_new 2)))
       = [Warn_no_channel (JStr ''hourly'')]
   \<and> running (cron_registry (start five_fields (Parsed (JArr [entry_hourly]))
         (Scheduler_new (TaskQueue_new 2))) ! 0)
   \<and> taskQueue (sched_step five_fields [] (Cron_fire 0 1700000000000)
         (start five_fields (Parsed (JArr [entry_hourly])) (Scheduler_new (TaskQueue_new 2))))
       = TaskQueue_new 2
   \<and> truthy_opt (slackChannel job_nightly)
   \<and> activeTaskIds (taskQueue (enqueueJob [] 1700000000000 job_nightly (Scheduler_new (TaskQueue_new 2))))
       = [''scheduler-nightly-1700000000000'']
   \<and> (0::int) \<le> 1700000000000 \<and> (0::int) \<le> 1700000060000
   \<and> taskId job_nightly 1700000000000 \<noteq> taskId job_nightly 1700000060000"
proof -
  let ?s1 = "start five_fields (Parsed (JArr [entry_hourly])) (Scheduler_new (TaskQueue_new 2))"
  have h1: "\<not> truthy_opt (slackChannel job_hourly) \<and> ([]::string) = []"
    by (simp add: job_hourly_def)
  have h2: "truthy_opt (slackChannel job_nightly) \<or> ([]::string) \<noteq> []"
    by (simp add: job_nightly_def)
  have h3: "0 < length (cron_registry ?s1) \<and> running (cron_registry ?s1 ! 0)
        \<and> \<not> truthy_opt (slackChannel (callback_job (cron_registry ?s1 ! 0))) \<and> ([]::string) = []"
    by (simp add: sched_eval)
  have q1: "taskQueue ?s1 = TaskQueue_new 2"
    by (simp add: sched_eval)
  note a = cron_firing_channel_and_key
      [where job = job_hourly and ch = "[]" and now = 1700000000000
         and s = "Scheduler_new (TaskQueue_new 2)", THEN conjunct1, rule_format, OF h1]
  note f = cron_firing_channel_and_key
      [where ch = "[]" and now = 1700000000000 and s = ?s1 and h = 0 and validate = five_fields,
         THEN conjunct2, THEN conjunct1, rule_format, OF h3]
  note b = cron_firing_channel_and_key
      [where job = job_nightly and ch = "[]" and now = 1700000000000
         and s = "Scheduler_new (TaskQueue_new 2)",
         THEN conjunct2, THEN conjunct2, THEN conjunct1, rule_format, OF h2]
  note c = cron_firing_channel_and_key
      [where ?j1.0 = job_nightly and ?j2.0 = job_nightly and ?t1.0 = 1700000000000
         and ?t2.0 = 1700000060000, THEN conjunct2, THEN conjunct2, THEN conjunct2]
  have a1: "taskQueue (enqueueJob [] 1700000000000 job_hourly (Scheduler_new (TaskQueue_new 2)))
       = TaskQueue_new 2"
    using a by (simp add: Scheduler_new_def)
  have a2: "logger_s (enqueueJob [] 1700000000000 job_hourly (Scheduler_new (TaskQueue_new 2)))
       = [Warn_no_channel (JStr ''hourly'')]"
    using a by (simp add: Scheduler_new_def job_hourly_def)
  have f1: "taskQueue (sched_step five_fields [] (Cron_fire 0 1700000000000) ?s1) = TaskQueue_new 2"
    using f q1 by simp
  have b1: "activeTaskIds (taskQueue (enqueueJob [] 1700000000000 job_nightly (Scheduler_new (TaskQueue_new 2))))
       = [''scheduler-nightly-1700000000000'']"
    unfolding b
    by (simp add: Scheduler_new_def job_nightly_def number_toString_def digits.simps digit_char_def
        channel_of_def tq_eval)
  have c1: "taskId job_nightly 1700000000000 \<noteq> taskId job_nightly 1700000060000"
    using c by auto
  have h2': "truthy_opt (slackChannel job_nightly)" by (simp add: job_nightly_def)
  show ?thesis using h1 h2' h3 a1 a2 f1 b1 c1 by simp
qed


end
